theory Spec2Isabelle
  imports Main "HOL-Library.Sublist"
begin

section \<open>The REPL model of the debug console (replModel.ts)\<close>

text \<open>
  A shallow embedding of \<^verbatim>\<open>src/vs/workbench/contrib/debug/common/replModel.ts\<close>.
  Objects are values: the store owns its top-level entries and a group owns its
  children, so a tree of values carries the same information as the object graph.
  The two emitters are recorded as a trace of events, the newest last. The two
  module-wide counters that produce identities are fields of the store.
  A JavaScript string is modelled as a \<^typ>\<open>string\<close>, one character per code unit.
\<close>

subsection \<open>Data model\<close>

text \<open>The enum of \<^verbatim>\<open>vs/base/common/severity\<close>.\<close>

datatype severity = Ignore | Info | Warning | Error

text \<open>A debug session is only ever passed along; it is represented by its id.\<close>

type_synonym session = string

text \<open>
  \<^verbatim>\<open>IReplElementSource\<close>: a column, a line number and a source, of which the name
  and the string form of the uri (\<^verbatim>\<open>source.uri.toString()\<close>) are read.
\<close>

record repl_source =
  column :: int
  lineNumber :: int
  sourceName :: string
  sourceUri :: string

text \<open>
  The values a \<^verbatim>\<open>RawObjectReplElement\<close> wraps. An object is the list of its own
  properties in enumeration order. Numbers are integers here; no operation below
  computes with them.
\<close>

datatype jsval =
    JNull
  | JUndefined
  | JBool bool
  | JNumber int
  | JString string
  | JArray "jsval list"
  | JObject "(string \<times> jsval) list"

text \<open>
  The entries of the log, one constructor per class.
  \<^item> \<open>SimpleReplElement session id value severity sourceData count\<close>
  \<^item> \<open>RawObjectReplElement id name valueObj sourceData annotation severity\<close>; the last
    field is the property \<^verbatim>\<open>appendToRepl\<close> sets on an expression it is given
  \<^item> \<open>ReplEvaluationInput id value\<close>
  \<^item> \<open>ReplEvaluationResult id available value\<close>
  \<^item> \<open>ReplGroup id name autoExpand sourceData children ended\<close>
\<close>

datatype elem =
    SimpleReplElement session string string severity "repl_source option" nat
  | RawObjectReplElement string string jsval "repl_source option" "string option" "severity option"
  | ReplEvaluationInput string string
  | ReplEvaluationResult string bool string
  | ReplGroup string string bool "repl_source option" "elem list" bool

datatype event = DidChangeElements | DidChangeCount string

record repl_model =
  replElements :: "elem list"
  events :: "event list"
  topReplElementCounter :: nat
  groupCounter :: nat
  collapseIdenticalLines :: bool

definition MAX_REPL_LENGTH :: nat where
  "MAX_REPL_LENGTH = 10000"

definition MAX_CHILDREN :: nat where
  "MAX_CHILDREN = 1000"

text \<open>A new \<^verbatim>\<open>ReplModel\<close>: no entries; the counters are module-wide and may have any value.\<close>

definition newReplModel :: "bool \<Rightarrow> nat \<Rightarrow> nat \<Rightarrow> repl_model" where
  "newReplModel collapse tc gc =
     \<lparr>replElements = [], events = [], topReplElementCounter = tc, groupCounter = gc,
      collapseIdenticalLines = collapse\<rparr>"

subsection \<open>Identities\<close>

text \<open>The decimal rendering of a counter inside a template string.\<close>

definition digitChar :: "nat \<Rightarrow> char" where
  "digitChar d = ''0123456789'' ! d"

fun showNat :: "nat \<Rightarrow> string" where
  "showNat n = (if n < 10 then [digitChar n] else showNat (n div 10) @ [digitChar (n mod 10)])"

declare showNat.simps [simp del]

definition getUniqueId :: "nat \<Rightarrow> string" where
  "getUniqueId n = ''topReplElement:'' @ showNat n"

definition replGroupId :: "nat \<Rightarrow> string" where
  "replGroupId n = ''replGroup:'' @ showNat n"

fun getId :: "elem \<Rightarrow> string" where
  "getId (SimpleReplElement se i v sv src c) = i"
| "getId (RawObjectReplElement i n v src ann sv) = i"
| "getId (ReplEvaluationInput i v) = i"
| "getId (ReplEvaluationResult i a v) = i"
| "getId (ReplGroup i n a src ch e) = i"

subsection \<open>ReplGroup\<close>

fun isGroup :: "elem \<Rightarrow> bool" where
  "isGroup (ReplGroup i n a src ch e) = True"
| "isGroup _ = False"

fun hasEnded :: "elem \<Rightarrow> bool" where
  "hasEnded (ReplGroup i n a src ch e) = e"
| "hasEnded _ = False"

fun getChildren :: "elem \<Rightarrow> elem list" where
  "getChildren (ReplGroup i n a src ch e) = ch"
| "getChildren _ = []"

text \<open>The test \<^verbatim>\<open>lastElement instanceof ReplGroup && !lastElement.hasEnded\<close>.\<close>

fun isOpenGroup :: "elem \<Rightarrow> bool" where
  "isOpenGroup (ReplGroup i n a src ch e) = (\<not> e)"
| "isOpenGroup _ = False"

text \<open>
  \<^verbatim>\<open>ReplGroup.addChild\<close>. The method exists on groups only; on another entry the
  function is the identity, and no caller below reaches that equation.
\<close>

function addChild :: "elem \<Rightarrow> elem \<Rightarrow> elem" where
  "addChild (ReplGroup i n a src ch e) child =
     (if ch \<noteq> [] \<and> isOpenGroup (last ch)
      then ReplGroup i n a src (butlast ch @ [addChild (last ch) child]) e
      else ReplGroup i n a src (ch @ [child]) e)"
| "addChild (SimpleReplElement se i v sv src c) child = SimpleReplElement se i v sv src c"
| "addChild (RawObjectReplElement i n v src ann sv) child = RawObjectReplElement i n v src ann sv"
| "addChild (ReplEvaluationInput i v) child = ReplEvaluationInput i v"
| "addChild (ReplEvaluationResult i a v) child = ReplEvaluationResult i a v"
  by pat_completeness auto
termination
proof (relation "measure (\<lambda>(g, c). size g)")
  show "wf (measure (\<lambda>(g, c). size g))" by simp
next
  fix i n :: string and a e :: bool and src :: "repl_source option"
    and ch :: "elem list" and child :: elem
  assume "ch \<noteq> [] \<and> isOpenGroup (last ch)"
  then have "last ch \<in> set ch" by simp
  then have "size (last ch) \<le> size_list size ch"
    by (simp add: size_list_estimation')
  then show "((last ch, child), (ReplGroup i n a src ch e, child)) \<in> measure (\<lambda>(g, c). size g)"
    by simp
qed

text \<open>\<^verbatim>\<open>ReplGroup.end\<close>.\<close>

function ReplGroup_end :: "elem \<Rightarrow> elem" where
  "ReplGroup_end (ReplGroup i n a src ch e) =
     (if ch \<noteq> [] \<and> isOpenGroup (last ch)
      then ReplGroup i n a src (butlast ch @ [ReplGroup_end (last ch)]) e
      else ReplGroup i n a src ch True)"
| "ReplGroup_end (SimpleReplElement se i v sv src c) = SimpleReplElement se i v sv src c"
| "ReplGroup_end (RawObjectReplElement i n v src ann sv) = RawObjectReplElement i n v src ann sv"
| "ReplGroup_end (ReplEvaluationInput i v) = ReplEvaluationInput i v"
| "ReplGroup_end (ReplEvaluationResult i a v) = ReplEvaluationResult i a v"
  by pat_completeness auto
termination
proof (relation "measure size")
  show "wf (measure size)" by simp
next
  fix i n :: string and a e :: bool and src :: "repl_source option" and ch :: "elem list"
  assume "ch \<noteq> [] \<and> isOpenGroup (last ch)"
  then have "last ch \<in> set ch" by simp
  then have "size (last ch) \<le> size_list size ch"
    by (simp add: size_list_estimation')
  then show "(last ch, ReplGroup i n a src ch e) \<in> measure size"
    by simp
qed

subsection \<open>ReplModel: insertion, groups, clearing\<close>

definition fire :: "event \<Rightarrow> repl_model \<Rightarrow> repl_model" where
  "fire ev m = m\<lparr>events := events m @ [ev]\<rparr>"

text \<open>
  \<^verbatim>\<open>ReplModel.addReplElement\<close>. \<^verbatim>\<open>splice(0, length - MAX_REPL_LENGTH)\<close> removes that many
  entries from the front.
\<close>

definition addReplElement :: "repl_model \<Rightarrow> elem \<Rightarrow> repl_model" where
  "addReplElement m newElement =
     (let es = replElements m in
      fire DidChangeElements
        (if es \<noteq> [] \<and> isOpenGroup (last es)
         then m\<lparr>replElements := butlast es @ [addChild (last es) newElement]\<rparr>
         else (let es' = es @ [newElement] in
               if length es' > MAX_REPL_LENGTH
               then m\<lparr>replElements := drop (length es' - MAX_REPL_LENGTH) es'\<rparr>
               else m\<lparr>replElements := es'\<rparr>)))"

definition removeReplExpressions :: "repl_model \<Rightarrow> repl_model" where
  "removeReplExpressions m =
     (if length (replElements m) > 0
      then fire DidChangeElements (m\<lparr>replElements := []\<rparr>)
      else m)"

definition startGroup :: "repl_model \<Rightarrow> string \<Rightarrow> bool \<Rightarrow> repl_source option \<Rightarrow> repl_model" where
  "startGroup m name autoExpand sourceData =
     (let group = ReplGroup (replGroupId (groupCounter m)) name autoExpand sourceData [] False
      in addReplElement (m\<lparr>groupCounter := groupCounter m + 1\<rparr>) group)"

text \<open>
  \<^verbatim>\<open>ReplModel.endGroup\<close>. On an empty array the index \<open>-1\<close> reads \<^verbatim>\<open>undefined\<close>, which
  is no group.
\<close>

definition endGroup :: "repl_model \<Rightarrow> repl_model" where
  "endGroup m =
     (let es = replElements m in
      if es \<noteq> [] \<and> isGroup (last es)
      then m\<lparr>replElements := butlast es @ [ReplGroup_end (last es)]\<rparr>
      else m)"

subsection \<open>Strings\<close>

text \<open>
  \<^verbatim>\<open>String.prototype.indexOf\<close> and \<^verbatim>\<open>lastIndexOf\<close> with one argument: the index of the
  first (last) occurrence, or \<open>-1\<close>.
\<close>

fun indexOf :: "string \<Rightarrow> string \<Rightarrow> int" where
  "indexOf [] pat = (if pat = [] then 0 else -1)"
| "indexOf (c # cs) pat =
     (if prefix pat (c # cs) then 0
      else (let r = indexOf cs pat in if r < 0 then -1 else r + 1))"

fun lastIndexOf :: "string \<Rightarrow> string \<Rightarrow> int" where
  "lastIndexOf [] pat = (if pat = [] then 0 else -1)"
| "lastIndexOf (c # cs) pat =
     (let r = lastIndexOf cs pat in
      if r \<ge> 0 then r + 1 else if prefix pat (c # cs) then 0 else -1)"

text \<open>\<^verbatim>\<open>substring(start)\<close>: a negative start counts as 0, one beyond the end as the length.\<close>

definition substring :: "string \<Rightarrow> int \<Rightarrow> string" where
  "substring s start = drop (nat start) s"

definition endsWith :: "string \<Rightarrow> string \<Rightarrow> bool" where
  "endsWith s suf = suffix suf s"

definition clearAnsiSequence :: string where
  "clearAnsiSequence = [CHR 0x1B, CHR ''['', CHR ''2'', CHR ''J'']"

text \<open>\<^verbatim>\<open>nls.localize('consoleCleared', "Console was cleared")\<close>, in the default language.\<close>

definition consoleCleared :: string where
  "consoleCleared = ''Console was cleared''"

definition newline :: string where
  "newline = [CHR 0x0A]"

definition crlf :: string where
  "crlf = [CHR 0x0D, CHR 0x0A]"

subsection \<open>ReplModel: appending output\<close>

fun areSourcesEqual :: "repl_source option \<Rightarrow> repl_source option \<Rightarrow> bool" where
  "areSourcesEqual None None = True"
| "areSourcesEqual (Some first) (Some second) =
     (column first = column second \<and> lineNumber first = lineNumber second
      \<and> sourceUri first = sourceUri second)"
| "areSourcesEqual _ _ = False"

text \<open>
  The \<^verbatim>\<open>data\<close> of \<^verbatim>\<open>appendToRepl\<close> is a string or an expression. The expressions
  constructed in this file are \<^verbatim>\<open>RawObjectReplElement\<close>s; \<open>Expression\<close> carries the
  constructor's arguments.
\<close>

datatype repl_data =
    Text string
  | Expression string string jsval "repl_source option" "string option"

text \<open>
  The branch \<^verbatim>\<open>typeof data === 'string'\<close> of \<^verbatim>\<open>appendToRepl\<close>, which runs on the
  text that is left once a clear sequence has been dealt with.
\<close>

definition appendToRepl_string ::
    "repl_model \<Rightarrow> session \<Rightarrow> string \<Rightarrow> severity \<Rightarrow> repl_source option \<Rightarrow> repl_model" where
  "appendToRepl_string m session data sev source =
     (let es = replElements m;
          tc = topReplElementCounter m;
          element = SimpleReplElement session (getUniqueId tc) data sev source 1;
          added = addReplElement (m\<lparr>topReplElementCounter := tc + 1\<rparr>) element
      in case (if es \<noteq> [] then Some (last es) else None) of
           Some (SimpleReplElement pse pid pvalue psev psrc pcount) \<Rightarrow>
             if psev = sev then
               if pvalue = data \<and> areSourcesEqual psrc source \<and> collapseIdenticalLines m
               then fire (DidChangeCount pid)
                      (m\<lparr>replElements :=
                           butlast es @ [SimpleReplElement pse pid pvalue psev psrc (pcount + 1)]\<rparr>)
               else if \<not> endsWith pvalue newline \<and> \<not> endsWith pvalue crlf \<and> pcount = 1
               then fire DidChangeElements
                      (m\<lparr>replElements :=
                           butlast es @
                             [SimpleReplElement session (getUniqueId tc) (pvalue @ data) sev source 1],
                         topReplElementCounter := tc + 1\<rparr>)
               else added
             else added
         | _ \<Rightarrow> added)"

text \<open>
  \<^verbatim>\<open>ReplModel.appendToRepl\<close>. The inner call passes the cleared notice, which holds
  no clear sequence, so the recursion is one level deep. An expression is the caller's
  object: the code writes the severity and the source onto it and inserts the object
  itself. The model inserts the value with the two fields set. The two agree as long as
  an object is appended once, which is the rule that no entry is held by two containers;
  were one object appended twice, the code would change the entry appended first as well,
  and a value does not show that.
\<close>

function appendToRepl ::
    "repl_model \<Rightarrow> session \<Rightarrow> repl_data \<Rightarrow> severity \<Rightarrow> repl_source option \<Rightarrow> repl_model" where
  "appendToRepl m session (Text str) sev source =
     (if indexOf str clearAnsiSequence \<ge> 0
      then appendToRepl_string
             (appendToRepl (removeReplExpressions m) session (Text consoleCleared) Ignore None)
             session
             (substring str (lastIndexOf str clearAnsiSequence + int (length clearAnsiSequence)))
             sev source
      else appendToRepl_string m session str sev source)"
| "appendToRepl m session (Expression i n v src ann) sev source =
     addReplElement m (RawObjectReplElement i n v source ann (Some sev))"
  by pat_completeness auto
termination
proof (relation "measure (\<lambda>(m, session, data, sev, source).
         case data of Text str \<Rightarrow> (if indexOf str clearAnsiSequence \<ge> 0 then 1 else 0)
                    | Expression i n v src ann \<Rightarrow> 0)")
  show "wf (measure (\<lambda>(m, session, data, sev, source).
         case data of Text str \<Rightarrow> (if indexOf str clearAnsiSequence \<ge> 0 then 1 else 0 :: nat)
                    | Expression i n v src ann \<Rightarrow> 0))"
    by simp
next
  fix m :: repl_model and session str :: string and sev :: severity
    and source :: "repl_source option"
  assume found: "0 \<le> indexOf str clearAnsiSequence"
  have "indexOf consoleCleared clearAnsiSequence < 0"
    by (simp add: consoleCleared_def clearAnsiSequence_def)
  with found show "((removeReplExpressions m, session, Text consoleCleared, Ignore, None),
          (m, session, Text str, sev, source))
        \<in> measure (\<lambda>(m, session, data, sev, source).
            case data of Text str \<Rightarrow> (if indexOf str clearAnsiSequence \<ge> 0 then 1 else 0)
                       | Expression i n v src ann \<Rightarrow> 0)"
    by simp
qed

subsection \<open>RawObjectReplElement\<close>

text \<open>
  \<^verbatim>\<open>isObject\<close> of \<^verbatim>\<open>vs/base/common/types\<close> accepts the objects that are neither null
  nor arrays: of the values above, the keyed ones.
\<close>

fun isObject :: "jsval \<Rightarrow> bool" where
  "isObject (JObject ps) = True"
| "isObject _ = False"

fun isArray :: "jsval \<Rightarrow> bool" where
  "isArray (JArray vs) = True"
| "isArray _ = False"

fun arrayLength :: "jsval \<Rightarrow> nat" where
  "arrayLength (JArray vs) = length vs"
| "arrayLength _ = 0"

fun getOwnPropertyNames :: "jsval \<Rightarrow> string list" where
  "getOwnPropertyNames (JObject ps) = map fst ps"
| "getOwnPropertyNames _ = []"

fun hasChildren :: "elem \<Rightarrow> bool" where
  "hasChildren (RawObjectReplElement i n v src ann sv) =
     ((isArray v \<and> arrayLength v > 0) \<or> (isObject v \<and> length (getOwnPropertyNames v) > 0))"
| "hasChildren (ReplGroup i n a src ch e) = True"
| "hasChildren _ = False"

text \<open>
  \<^verbatim>\<open>RawObjectReplElement.getChildren\<close>; the promise it returns is already resolved.
  \<^verbatim>\<open>this.valueObj[key]\<close> reads the property of that name.
\<close>

fun RawObject_getChildren :: "elem \<Rightarrow> elem list" where
  "RawObject_getChildren (RawObjectReplElement i n (JArray vs) src ann sv) =
     map (\<lambda>(index, v). RawObjectReplElement (i @ '':'' @ showNat index) (showNat index) v None None None)
       (enumerate 0 (take MAX_CHILDREN vs))"
| "RawObject_getChildren (RawObjectReplElement i n (JObject ps) src ann sv) =
     map (\<lambda>(index, key).
            RawObjectReplElement (i @ '':'' @ showNat index) key
              (case map_of ps key of Some v \<Rightarrow> v | None \<Rightarrow> JUndefined) None None None)
       (enumerate 0 (take MAX_CHILDREN (getOwnPropertyNames (JObject ps))))"
| "RawObject_getChildren _ = []"

subsection \<open>Evaluating an expression\<close>

text \<open>What the evaluation subsystem resolves to: whether it succeeded, and the value to show.\<close>

datatype evaluation = Evaluation bool string

text \<open>A promise that rejects does so with a reason.\<close>

datatype rejection = Rejected string

text \<open>
  Modelled from the spec: \<^verbatim>\<open>ExpressionContainer.evaluateExpression\<close> of
  \<^verbatim>\<open>debugModel.ts\<close>, which is not among the sources. A failed evaluation is not an
  exception: the method resolves, and never rejects, to whether the evaluation
  succeeded, after storing the value.
\<close>

fun ExpressionContainer_evaluateExpression ::
    "evaluation \<Rightarrow> elem \<Rightarrow> rejection + elem \<times> bool" where
  "ExpressionContainer_evaluateExpression (Evaluation ok val) (ReplEvaluationResult i a v) =
     Inr (ReplEvaluationResult i a val, ok)"
| "ExpressionContainer_evaluateExpression (Evaluation ok val) e = Inr (e, ok)"

fun setAvailable :: "elem \<Rightarrow> bool \<Rightarrow> elem" where
  "setAvailable (ReplEvaluationResult i a v) b = ReplEvaluationResult i b v"
| "setAvailable e b = e"

text \<open>
  \<^verbatim>\<open>ReplEvaluationResult.evaluateExpression\<close> awaits the method of the base class, here
  the argument \<open>super\<close>, and keeps what it resolved to as \<^verbatim>\<open>_available\<close>. There is no
  handler: when the base method rejects, so does this one.
\<close>

definition ReplEvaluationResult_evaluateExpression ::
    "(elem \<Rightarrow> rejection + elem \<times> bool) \<Rightarrow> elem \<Rightarrow> rejection + elem \<times> bool" where
  "ReplEvaluationResult_evaluateExpression super this =
     (case super this of
        Inl r \<Rightarrow> Inl r
      | Inr (this', result) \<Rightarrow> Inr (setAvailable this' result, result))"

text \<open>
  \<^verbatim>\<open>ReplModel.addReplExpression\<close> runs up to its \<^verbatim>\<open>await\<close>, and resumes when the
  evaluation has settled; other operations on the store may run in between. The two
  identities come from \<^verbatim>\<open>generateUuid\<close>; the value a fresh \<^verbatim>\<open>ReplEvaluationResult\<close>
  shows is the empty string until it is evaluated. The resumption returns the store
  together with the rejection, if there is one: the \<^verbatim>\<open>await\<close> has no handler either, so
  a rejection ends the method before the result is inserted.
\<close>

definition addReplExpression_begin :: "repl_model \<Rightarrow> string \<Rightarrow> string \<Rightarrow> repl_model" where
  "addReplExpression_begin m name uuid = addReplElement m (ReplEvaluationInput uuid name)"

definition addReplExpression_resume ::
    "repl_model \<Rightarrow> string \<Rightarrow> (elem \<Rightarrow> rejection + elem \<times> bool) \<Rightarrow> rejection option \<times> repl_model"
  where
  "addReplExpression_resume m uuid super =
     (let result = ReplEvaluationResult uuid True []
      in case ReplEvaluationResult_evaluateExpression super result of
           Inl r \<Rightarrow> (Some r, m)
         | Inr (result', available) \<Rightarrow> (None, addReplElement m result'))"


subsection \<open>Runs of the public operations\<close>

text \<open>
  The operations of a \<^verbatim>\<open>ReplModel\<close> that change it. The two halves of
  \<^verbatim>\<open>addReplExpression\<close> are operations of their own, so that a run may hold others
  between them; the second half carries what the evaluation resolved to.
\<close>

datatype operation =
    AppendToRepl session repl_data severity "repl_source option"
  | StartGroup string bool "repl_source option"
  | EndGroup
  | AddReplExpressionBegin string string
  | AddReplExpressionResume string evaluation
  | RemoveReplExpressions

fun exec :: "repl_model \<Rightarrow> operation \<Rightarrow> repl_model" where
  "exec m (AppendToRepl session data sev source) = appendToRepl m session data sev source"
| "exec m (StartGroup name autoExpand source) = startGroup m name autoExpand source"
| "exec m EndGroup = endGroup m"
| "exec m (AddReplExpressionBegin name uuid) = addReplExpression_begin m name uuid"
| "exec m (AddReplExpressionResume uuid ev) =
     snd (addReplExpression_resume m uuid (ExpressionContainer_evaluateExpression ev))"
| "exec m RemoveReplExpressions = removeReplExpressions m"

definition run :: "repl_model \<Rightarrow> operation list \<Rightarrow> repl_model" where
  "run m ops = foldl exec m ops"

subsection \<open>Notions used to state the properties\<close>

text \<open>
  The groups a call of \<^verbatim>\<open>end\<close> walks through: from a group to its last child for as
  long as that child is an open group. \<open>innermostOpenDepth\<close> is the number of steps,
  and \<open>closeAtDepth k\<close> sets the closed flag of the group found after \<open>k\<close> steps from a
  group to its last child, and nothing else.
\<close>

function innermostOpenDepth :: "elem \<Rightarrow> nat" where
  "innermostOpenDepth (ReplGroup i n a src ch e) =
     (if ch \<noteq> [] \<and> isOpenGroup (last ch) then Suc (innermostOpenDepth (last ch)) else 0)"
| "innermostOpenDepth (SimpleReplElement se i v sv src c) = 0"
| "innermostOpenDepth (RawObjectReplElement i n v src ann sv) = 0"
| "innermostOpenDepth (ReplEvaluationInput i v) = 0"
| "innermostOpenDepth (ReplEvaluationResult i a v) = 0"
  by pat_completeness auto
termination
proof (relation "measure size")
  show "wf (measure size)" by simp
next
  fix i n :: string and a e :: bool and src :: "repl_source option" and ch :: "elem list"
  assume "ch \<noteq> [] \<and> isOpenGroup (last ch)"
  then have "last ch \<in> set ch" by simp
  then have "size (last ch) \<le> size_list size ch"
    by (simp add: size_list_estimation')
  then show "(last ch, ReplGroup i n a src ch e) \<in> measure size"
    by simp
qed

fun setEnded :: "elem \<Rightarrow> elem" where
  "setEnded (ReplGroup i n a src ch e) = ReplGroup i n a src ch True"
| "setEnded x = x"

fun mapLastChild :: "(elem \<Rightarrow> elem) \<Rightarrow> elem \<Rightarrow> elem" where
  "mapLastChild f (ReplGroup i n a src ch e) =
     (if ch = [] then ReplGroup i n a src ch e
      else ReplGroup i n a src (butlast ch @ [f (last ch)]) e)"
| "mapLastChild f x = x"

primrec closeAtDepth :: "nat \<Rightarrow> elem \<Rightarrow> elem" where
  "closeAtDepth 0 g = setEnded g"
| "closeAtDepth (Suc k) g = mapLastChild (closeAtDepth k) g"

text \<open>An entry with every closed flag reset: what is left when the flags are ignored.\<close>

fun forgetEnded :: "elem \<Rightarrow> elem" where
  "forgetEnded (ReplGroup i n a src ch e) = ReplGroup i n a src (map forgetEnded ch) False"
| "forgetEnded x = x"



text \<open>
  Whether the text of an \<^verbatim>\<open>appendToRepl\<close> call would go into this entry, as a repeat
  of it or glued onto its line, were identical lines collapsed: the two tests of
  \<^verbatim>\<open>appendToRepl\<close> on the previous element, without the configuration.
\<close>

fun mergesInto :: "elem \<Rightarrow> string \<Rightarrow> severity \<Rightarrow> repl_source option \<Rightarrow> bool" where
  "mergesInto (SimpleReplElement pse pid pvalue psev psrc pcount) data sev source =
     (psev = sev \<and>
       ((pvalue = data \<and> areSourcesEqual psrc source)
        \<or> (\<not> endsWith pvalue newline \<and> \<not> endsWith pvalue crlf \<and> pcount = 1)))"
| "mergesInto x data sev source = False"

text \<open>
  The identities of the top-level text entries come from the counter: each is
  \<open>getUniqueId k\<close> for a \<open>k\<close> below the counter's value.
\<close>

fun simpleIdBelow :: "nat \<Rightarrow> elem \<Rightarrow> bool" where
  "simpleIdBelow n (SimpleReplElement se i v sv src c) = (i \<in> getUniqueId ` {..<n})"
| "simpleIdBelow n x = True"

definition idsIssued :: "repl_model \<Rightarrow> bool" where
  "idsIssued m = list_all (simpleIdBelow (topReplElementCounter m)) (replElements m)"

text \<open>
  The groups of an entry: the entry itself when it is a group, and the groups among its
  descendants, in the order a walk from the top meets them. \<open>allGroups\<close> are the groups
  of the whole log.
\<close>

fun groupNodes :: "elem \<Rightarrow> elem list" where
  "groupNodes (ReplGroup i n a src ch e) =
     ReplGroup i n a src ch e # concat (map groupNodes ch)"
| "groupNodes x = []"

definition allGroups :: "repl_model \<Rightarrow> elem list" where
  "allGroups m = concat (map groupNodes (replElements m))"

text \<open>
  What the public operations maintain about groups: a closed group has no open group
  as its last child, the identities of the groups are distinct, and each was produced
  by the group counter.
\<close>

fun closedSettled :: "elem \<Rightarrow> bool" where
  "closedSettled (ReplGroup i n a src ch e) = (e \<longrightarrow> \<not> (ch \<noteq> [] \<and> isOpenGroup (last ch)))"
| "closedSettled x = True"

definition groupsWellFormed :: "repl_model \<Rightarrow> bool" where
  "groupsWellFormed m =
     (distinct (map getId (allGroups m))
      \<and> list_all (\<lambda>g. getId g \<in> replGroupId ` {..<groupCounter m}) (allGroups m)
      \<and> list_all closedSettled (allGroups m))"

section \<open>Properties\<close>

subsection \<open>Insertion and the retention bound\<close>

lemma fire_simps [simp]:
  "replElements (fire ev m) = replElements m"
  "events (fire ev m) = events m @ [ev]"
  "topReplElementCounter (fire ev m) = topReplElementCounter m"
  "groupCounter (fire ev m) = groupCounter m"
  "collapseIdenticalLines (fire ev m) = collapseIdenticalLines m"
  by (simp_all add: fire_def)

lemma newReplModel_simps [simp]:
  "replElements (newReplModel c tc gc) = []"
  "events (newReplModel c tc gc) = []"
  "topReplElementCounter (newReplModel c tc gc) = tc"
  "groupCounter (newReplModel c tc gc) = gc"
  "collapseIdenticalLines (newReplModel c tc gc) = c"
  by (simp_all add: newReplModel_def)

lemma addReplElement_events [simp]:
  "events (addReplElement m e) = events m @ [DidChangeElements]"
  by (simp add: addReplElement_def Let_def)

lemma addReplElement_counters [simp]:
  "topReplElementCounter (addReplElement m e) = topReplElementCounter m"
  "groupCounter (addReplElement m e) = groupCounter m"
  "collapseIdenticalLines (addReplElement m e) = collapseIdenticalLines m"
  by (simp_all add: addReplElement_def Let_def)

lemma addReplElement_top:
  assumes "replElements m = [] \<or> \<not> isOpenGroup (last (replElements m))"
  shows "replElements (addReplElement m e) =
           drop (length (replElements m) + 1 - MAX_REPL_LENGTH) (replElements m @ [e])"
  using assms by (auto simp add: addReplElement_def Let_def)

lemma addReplElement_nested:
  assumes "replElements m \<noteq> []" "isOpenGroup (last (replElements m))"
  shows "replElements (addReplElement m e) =
           butlast (replElements m) @ [addChild (last (replElements m)) e]"
  using assms by (auto simp add: addReplElement_def Let_def)

lemma addReplElement_top_last:
  assumes "replElements m = [] \<or> \<not> isOpenGroup (last (replElements m))"
  shows "replElements (addReplElement m e) \<noteq> [] \<and> last (replElements (addReplElement m e)) = e"
  using assms by (auto simp add: addReplElement_top MAX_REPL_LENGTH_def)

lemma addReplElement_length:
  assumes "replElements m = [] \<or> \<not> isOpenGroup (last (replElements m))"
  shows "length (replElements (addReplElement m e)) \<le> MAX_REPL_LENGTH"
  using assms by (auto simp add: addReplElement_top MAX_REPL_LENGTH_def)

lemma drop_evict:
  fixes ys xs :: "'a list" and M :: nat
  shows "drop (length (drop (length ys - M) ys @ xs) - M) (drop (length ys - M) ys @ xs) =
         drop (length (ys @ xs) - M) (ys @ xs)"
proof -
  have "drop (length ys - M) ys @ xs = drop (length ys - M) (ys @ xs)"
    by simp
  moreover have "length (drop (length ys - M) ys @ xs) - M + (length ys - M) = length (ys @ xs) - M"
    by simp
  ultimately show ?thesis
    by (metis drop_drop)
qed

lemma foldl_addReplElement_top:
  assumes "list_all (\<lambda>e. \<not> isOpenGroup e) xs"
    and "replElements m = [] \<or> \<not> isOpenGroup (last (replElements m))"
    and "length (replElements m) \<le> MAX_REPL_LENGTH"
  shows "replElements (foldl addReplElement m xs) =
           drop (length (replElements m @ xs) - MAX_REPL_LENGTH) (replElements m @ xs)"
  using assms
proof (induction xs arbitrary: m)
  case Nil
  then show ?case by simp
next
  case (Cons x xs)
  let ?m' = "addReplElement m x"
  have top: "replElements ?m' = [] \<or> \<not> isOpenGroup (last (replElements ?m'))"
    using Cons.prems addReplElement_top_last[of m x] by simp
  have len: "length (replElements ?m') \<le> MAX_REPL_LENGTH"
    using Cons.prems(2) by (rule addReplElement_length)
  have xs: "list_all (\<lambda>e. \<not> isOpenGroup e) xs"
    using Cons.prems(1) by simp
  have step: "replElements (foldl addReplElement ?m' xs) =
     drop (length (replElements ?m' @ xs) - MAX_REPL_LENGTH) (replElements ?m' @ xs)"
    by (rule Cons.IH[OF xs top len])
  have m': "replElements ?m' = drop (length (replElements m) + 1 - MAX_REPL_LENGTH) (replElements m @ [x])"
    using Cons.prems(2) by (rule addReplElement_top)
  have "replElements (foldl addReplElement ?m' xs) =
          drop (length ((replElements m @ [x]) @ xs) - MAX_REPL_LENGTH) ((replElements m @ [x]) @ xs)"
    unfolding step m' using drop_evict[of "replElements m @ [x]" MAX_REPL_LENGTH xs] by simp
  then show ?case by simp
qed

lemma foldl_addReplElement_events:
  "events (foldl addReplElement m xs) = events m @ replicate (length xs) DidChangeElements"
  by (induction xs arbitrary: m) (simp_all add: replicate_append_same)

text \<open>
  Claim C2. An insert fires the change notification once. An insert at the top level
  (the store is empty, or its last entry is no open group) appends the entry and drops
  entries from the front, so that at most 10,000 are left. Entries inserted one after
  the other at the top level of a new store leave the last 10,000 of them in their
  order, with one notification each; of 10,001 entries all but the first are left.
\<close>

theorem insert_bounded:
  "events (addReplElement m e) = events m @ [DidChangeElements]
   \<and> (replElements m = [] \<or> \<not> isOpenGroup (last (replElements m)) \<longrightarrow>
        length (replElements (addReplElement m e)) \<le> MAX_REPL_LENGTH
        \<and> replElements (addReplElement m e) =
            drop (length (replElements m) + 1 - MAX_REPL_LENGTH) (replElements m @ [e]))
   \<and> (list_all (\<lambda>x. \<not> isOpenGroup x) xs \<longrightarrow>
        replElements (foldl addReplElement (newReplModel c tc gc) xs) =
            drop (length xs - MAX_REPL_LENGTH) xs
        \<and> events (foldl addReplElement (newReplModel c tc gc) xs) =
            replicate (length xs) DidChangeElements
        \<and> (length xs = 10001 \<longrightarrow>
             replElements (foldl addReplElement (newReplModel c tc gc) xs) = tl xs))"
proof -
  have ev: "events (addReplElement m e) = events m @ [DidChangeElements]"
    by simp
  have single: "length (replElements (addReplElement m e)) \<le> MAX_REPL_LENGTH
        \<and> replElements (addReplElement m e) =
            drop (length (replElements m) + 1 - MAX_REPL_LENGTH) (replElements m @ [e])"
    if "replElements m = [] \<or> \<not> isOpenGroup (last (replElements m))"
    using addReplElement_length[OF that] addReplElement_top[OF that] by blast
  have seq: "replElements (foldl addReplElement (newReplModel c tc gc) xs) =
            drop (length xs - MAX_REPL_LENGTH) xs" if "list_all (\<lambda>x. \<not> isOpenGroup x) xs"
    using foldl_addReplElement_top[OF that, of "newReplModel c tc gc"] by simp
  have evs: "events (foldl addReplElement (newReplModel c tc gc) xs) =
            replicate (length xs) DidChangeElements"
    by (simp add: foldl_addReplElement_events)
  have one: "drop (length xs - MAX_REPL_LENGTH) xs = tl xs" if "length xs = 10001"
    using that by (simp add: MAX_REPL_LENGTH_def drop_Suc)
  have exact: "replElements (foldl addReplElement (newReplModel c tc gc) xs) = tl xs"
    if "list_all (\<lambda>x. \<not> isOpenGroup x) xs" and "length xs = 10001"
    using seq[OF that(1)] one[OF that(2)] by simp
  show ?thesis
    using ev single seq evs exact by blast
qed

theorem insert_bounded_witness:
  "list_all (\<lambda>x. \<not> isOpenGroup x) (map (\<lambda>k. ReplEvaluationInput (showNat k) ''1+1'') [0..<10001])
   \<and> length (map (\<lambda>k. ReplEvaluationInput (showNat k) ''1+1'') [0..<10001]) = 10001
   \<and> replElements (foldl addReplElement (newReplModel True 0 0)
        (map (\<lambda>k. ReplEvaluationInput (showNat k) ''1+1'') [0..<10001]))
       = tl (map (\<lambda>k. ReplEvaluationInput (showNat k) ''1+1'') [0..<10001])
   \<and> replElements (newReplModel True 0 0) = []
   \<and> length (replElements (addReplElement (newReplModel True 0 0) (ReplEvaluationInput ''u'' ''1+1''))) \<le> MAX_REPL_LENGTH"
proof -
  let ?xs = "map (\<lambda>k. ReplEvaluationInput (showNat k) ''1+1'') [0..<10001]"
  have a: "list_all (\<lambda>x. \<not> isOpenGroup x) ?xs"
    by (simp add: list_all_iff)
  have b: "length ?xs = 10001" by simp
  have c: "replElements (newReplModel True 0 0) = []" by simp
  note t = insert_bounded[of "newReplModel True 0 0" "ReplEvaluationInput ''u'' ''1+1''" ?xs True 0 0]
  from t a b have d: "replElements (foldl addReplElement (newReplModel True 0 0) ?xs) = tl ?xs"
    by blast
  from t c have e: "length (replElements (addReplElement (newReplModel True 0 0) (ReplEvaluationInput ''u'' ''1+1''))) \<le> MAX_REPL_LENGTH"
    by blast
  from a b c d e show ?thesis by blast
qed

subsection \<open>Clearing\<close>

text \<open>
  Claim C6. Clearing an empty store changes nothing and fires nothing; clearing a store
  that holds entries removes them all, groups with their children included, and fires
  the change notification once.
\<close>

theorem clear_notification:
  "(replElements m = [] \<longrightarrow> removeReplExpressions m = m)
   \<and> (replElements m \<noteq> [] \<longrightarrow>
        removeReplExpressions m = m\<lparr>replElements := [], events := events m @ [DidChangeElements]\<rparr>)"
  by (simp add: removeReplExpressions_def fire_def)

theorem clear_notification_witness:
  "removeReplExpressions (newReplModel True 0 0) = newReplModel True 0 0
   \<and> removeReplExpressions (addReplElement (newReplModel True 0 0) (ReplEvaluationInput ''u'' ''1+1''))
       = \<lparr>replElements = [], events = [DidChangeElements, DidChangeElements],
          topReplElementCounter = 0, groupCounter = 0, collapseIdenticalLines = True\<rparr>"
  using clear_notification[of "newReplModel True 0 0"]
    clear_notification[of "addReplElement (newReplModel True 0 0) (ReplEvaluationInput ''u'' ''1+1'')"]
  by (simp add: newReplModel_def addReplElement_def fire_def MAX_REPL_LENGTH_def)

subsection \<open>Nested groups\<close>

text \<open>
  Claim C1. On a new store the calls startGroup A, insert x, startGroup B, insert y,
  endGroup, insert z, endGroup, with entries x, y and z that are no open groups, leave
  one top-level group A holding x, the group B holding y, and z. The first endGroup
  closes B alone, and z lands in A, which is still open.
\<close>

theorem nested_groups:
  assumes "\<not> isOpenGroup x" "\<not> isOpenGroup y" "\<not> isOpenGroup z"
  shows "replElements
           (endGroup (addReplElement
              (startGroup (addReplElement (startGroup (newReplModel c tc gc) ''A'' aeA srcA) x)
                 ''B'' aeB srcB) y))
         = [ReplGroup (replGroupId gc) ''A'' aeA srcA
              [x, ReplGroup (replGroupId (gc + 1)) ''B'' aeB srcB [y] True] False]
       \<and> replElements
           (endGroup (addReplElement (endGroup (addReplElement
              (startGroup (addReplElement (startGroup (newReplModel c tc gc) ''A'' aeA srcA) x)
                 ''B'' aeB srcB) y)) z))
         = [ReplGroup (replGroupId gc) ''A'' aeA srcA
              [x, ReplGroup (replGroupId (gc + 1)) ''B'' aeB srcB [y] True, z] True]"
  using assms
  by (simp add: startGroup_def endGroup_def addReplElement_def Let_def MAX_REPL_LENGTH_def)

theorem nested_groups_witness:
  "\<not> isOpenGroup (ReplEvaluationInput ''u1'' ''x'')
   \<and> \<not> isOpenGroup (ReplEvaluationInput ''u2'' ''y'')
   \<and> \<not> isOpenGroup (ReplEvaluationInput ''u3'' ''z'')
   \<and> replElements
       (endGroup (addReplElement (endGroup (addReplElement
          (startGroup (addReplElement (startGroup (newReplModel True 0 0) ''A'' False None)
              (ReplEvaluationInput ''u1'' ''x''))
             ''B'' False None) (ReplEvaluationInput ''u2'' ''y'')))
          (ReplEvaluationInput ''u3'' ''z'')))
     = [ReplGroup (replGroupId 0) ''A'' False None
          [ReplEvaluationInput ''u1'' ''x'',
           ReplGroup (replGroupId (0 + 1)) ''B'' False None [ReplEvaluationInput ''u2'' ''y''] True,
           ReplEvaluationInput ''u3'' ''z''] True]"
  using nested_groups[of "ReplEvaluationInput ''u1'' ''x''" "ReplEvaluationInput ''u2'' ''y''"
      "ReplEvaluationInput ''u3'' ''z''" True 0 0 False None False None]
  by simp

subsection \<open>Closing a group\<close>

lemma map_butlast_snoc:
  "xs \<noteq> [] \<Longrightarrow> map f (butlast xs) @ [f (last xs)] = map f xs"
  by (induction xs) simp_all

lemma ReplGroup_end_closeAtDepth:
  "ReplGroup_end g = closeAtDepth (innermostOpenDepth g) g"
  by (induction g rule: ReplGroup_end.induct) simp_all

lemma ReplGroup_end_forgetEnded:
  "forgetEnded (ReplGroup_end g) = forgetEnded g"
proof (induction g rule: ReplGroup_end.induct)
  case (1 i n a src ch e)
  show ?case
  proof (cases "ch \<noteq> [] \<and> isOpenGroup (last ch)")
    case True
    then have "map forgetEnded (butlast ch @ [ReplGroup_end (last ch)]) = map forgetEnded ch"
      using "1.IH" by (simp add: map_butlast_snoc)
    with True show ?thesis by simp
  next
    case False
    then show ?thesis by auto
  qed
qed simp_all

lemma ReplGroup_end_closed:
  "hasEnded g \<Longrightarrow> innermostOpenDepth g = 0 \<Longrightarrow> ReplGroup_end g = g"
  by (cases g) (auto split: if_splits)

text \<open>
  Claim C10. endGroup fires no notification and leaves the counters, the number of
  top-level entries and everything but closed flags as they are. When the log is empty
  or its last entry is no group, the store is unchanged. Otherwise the one effect is on
  the last entry: the closed flag is set of the group reached from it through last
  children that are open groups. When that group is the last entry itself and it is
  closed already, the store is unchanged.
\<close>

theorem endGroup_frame:
  "events (endGroup m) = events m
   \<and> topReplElementCounter (endGroup m) = topReplElementCounter m
   \<and> groupCounter (endGroup m) = groupCounter m
   \<and> length (replElements (endGroup m)) = length (replElements m)
   \<and> map forgetEnded (replElements (endGroup m)) = map forgetEnded (replElements m)
   \<and> (replElements m = [] \<or> \<not> isGroup (last (replElements m)) \<longrightarrow> endGroup m = m)
   \<and> (replElements m \<noteq> [] \<and> isGroup (last (replElements m)) \<longrightarrow>
        endGroup m = m\<lparr>replElements := butlast (replElements m) @
           [closeAtDepth (innermostOpenDepth (last (replElements m))) (last (replElements m))]\<rparr>)
   \<and> (replElements m \<noteq> [] \<and> hasEnded (last (replElements m))
        \<and> innermostOpenDepth (last (replElements m)) = 0 \<longrightarrow> endGroup m = m)"
proof -
  have forget: "map forgetEnded (replElements (endGroup m)) = map forgetEnded (replElements m)"
  proof (cases "replElements m \<noteq> [] \<and> isGroup (last (replElements m))")
    case True
    then have "map forgetEnded (butlast (replElements m) @ [ReplGroup_end (last (replElements m))])
       = map forgetEnded (replElements m)"
      by (simp add: ReplGroup_end_forgetEnded map_butlast_snoc)
    with True show ?thesis
      by (simp add: endGroup_def Let_def)
  next
    case False
    then show ?thesis by (auto simp add: endGroup_def Let_def)
  qed
  have closed: "endGroup m = m"
    if "replElements m \<noteq> []" "hasEnded (last (replElements m))" "innermostOpenDepth (last (replElements m)) = 0"
    using that by (simp add: endGroup_def Let_def ReplGroup_end_closed)
  show ?thesis
    using forget closed
    by (auto simp add: endGroup_def Let_def ReplGroup_end_closeAtDepth)
qed

theorem endGroup_frame_witness:
  "endGroup (newReplModel True 0 0) = newReplModel True 0 0
   \<and> replElements (startGroup (startGroup (newReplModel True 0 0) ''A'' False None) ''B'' False None)
       = [ReplGroup (replGroupId 0) ''A'' False None
            [ReplGroup (replGroupId 1) ''B'' False None [] False] False]
   \<and> replElements
        (endGroup (startGroup (startGroup (newReplModel True 0 0) ''A'' False None) ''B'' False None))
       = [ReplGroup (replGroupId 0) ''A'' False None
            [ReplGroup (replGroupId 1) ''B'' False None [] True] False]
   \<and> events
        (endGroup (startGroup (startGroup (newReplModel True 0 0) ''A'' False None) ''B'' False None))
       = [DidChangeElements, DidChangeElements]"
  using endGroup_frame[of "newReplModel True 0 0"]
    endGroup_frame[of "startGroup (startGroup (newReplModel True 0 0) ''A'' False None) ''B'' False None"]
  by (simp add: startGroup_def addReplElement_def Let_def MAX_REPL_LENGTH_def)

subsection \<open>Children of a raw object\<close>

lemma RawObject_getChildren_length:
  "length (RawObject_getChildren x) \<le> MAX_CHILDREN"
  by (induction x rule: RawObject_getChildren.induct) simp_all

lemma RawObject_getChildren_id:
  assumes "k < length (RawObject_getChildren (RawObjectReplElement i n v src ann sv))"
  shows "getId (RawObject_getChildren (RawObjectReplElement i n v src ann sv) ! k) = i @ '':'' @ showNat k"
  using assms by (cases v) (simp_all add: nth_enumerate_eq)

lemma RawObject_getChildren_array:
  assumes "k < length vs" "k < MAX_CHILDREN"
  shows "RawObject_getChildren (RawObjectReplElement i n (JArray vs) src ann sv) ! k
         = RawObjectReplElement (i @ '':'' @ showNat k) (showNat k) (vs ! k) None None None"
  using assms by (simp add: nth_enumerate_eq)

text \<open>
  Claim C9. A RawObjectReplElement has children exactly when its value is an array that
  is not empty or an object with an own property. getChildren returns at most 1000
  entries: as many as the array has elements or the object has properties, up to 1000,
  so 1000 for an array of 1500. The child at index k has the parent's id followed by a
  colon and k; for an array it wraps the element at k under the name k, for an object
  the value of the k-th own property under that property's name. For a value that is
  neither an array nor an object there are no children, and getChildren is empty.
\<close>

theorem raw_children:
  "hasChildren (RawObjectReplElement i n v src ann sv)
     = ((\<exists>vs. v = JArray vs \<and> vs \<noteq> []) \<or> (\<exists>ps. v = JObject ps \<and> ps \<noteq> []))
   \<and> length (RawObject_getChildren (RawObjectReplElement i n v src ann sv)) \<le> 1000
   \<and> length (RawObject_getChildren (RawObjectReplElement i n (JArray vs) src ann sv))
       = min (length vs) 1000
   \<and> length (RawObject_getChildren (RawObjectReplElement i n (JObject ps) src ann sv))
       = min (length ps) 1000
   \<and> (length vs = 1500 \<longrightarrow>
        length (RawObject_getChildren (RawObjectReplElement i n (JArray vs) src ann sv)) = 1000)
   \<and> (\<forall>k < length (RawObject_getChildren (RawObjectReplElement i n v src ann sv)).
        getId (RawObject_getChildren (RawObjectReplElement i n v src ann sv) ! k)
          = i @ '':'' @ showNat k)
   \<and> (\<forall>k < min (length vs) 1000.
        RawObject_getChildren (RawObjectReplElement i n (JArray vs) src ann sv) ! k
          = RawObjectReplElement (i @ '':'' @ showNat k) (showNat k) (vs ! k) None None None)
   \<and> (\<forall>k < min (length ps) 1000.
        RawObject_getChildren (RawObjectReplElement i n (JObject ps) src ann sv) ! k
          = RawObjectReplElement (i @ '':'' @ showNat k) (fst (ps ! k))
              (case map_of ps (fst (ps ! k)) of Some v \<Rightarrow> v | None \<Rightarrow> JUndefined)
              None None None)
   \<and> (distinct (map fst ps) \<longrightarrow>
        (\<forall>k < min (length ps) 1000.
           RawObject_getChildren (RawObjectReplElement i n (JObject ps) src ann sv) ! k
             = RawObjectReplElement (i @ '':'' @ showNat k) (fst (ps ! k)) (snd (ps ! k))
                 None None None))
   \<and> (\<not> isArray v \<and> \<not> isObject v \<longrightarrow>
        \<not> hasChildren (RawObjectReplElement i n v src ann sv)
        \<and> RawObject_getChildren (RawObjectReplElement i n v src ann sv) = [])"
proof -
  have h: "hasChildren (RawObjectReplElement i n v src ann sv)
     = ((\<exists>vs. v = JArray vs \<and> vs \<noteq> []) \<or> (\<exists>ps. v = JObject ps \<and> ps \<noteq> []))"
    by (cases v) simp_all
  have l: "length (RawObject_getChildren (RawObjectReplElement i n v src ann sv)) \<le> 1000"
    using RawObject_getChildren_length[of "RawObjectReplElement i n v src ann sv"]
    by (simp add: MAX_CHILDREN_def)
  have a: "length (RawObject_getChildren (RawObjectReplElement i n (JArray vs) src ann sv))
       = min (length vs) 1000"
    by (simp add: MAX_CHILDREN_def)
  have b: "length (RawObject_getChildren (RawObjectReplElement i n (JObject ps) src ann sv))
       = min (length ps) 1000"
    by (simp add: MAX_CHILDREN_def)
  have c: "RawObject_getChildren (RawObjectReplElement i n v src ann sv) = []
           \<and> \<not> hasChildren (RawObjectReplElement i n v src ann sv)"
    if "\<not> isArray v \<and> \<not> isObject v"
    using that by (cases v) simp_all
  have d: "RawObject_getChildren (RawObjectReplElement i n (JArray vs) src ann sv) ! k
          = RawObjectReplElement (i @ '':'' @ showNat k) (showNat k) (vs ! k) None None None"
    if "k < min (length vs) 1000" for k
    using that by (simp add: nth_enumerate_eq MAX_CHILDREN_def)
  have e: "length (RawObject_getChildren (RawObjectReplElement i n (JArray vs) src ann sv)) = 1000"
    if "length vs = 1500"
    using that by (simp add: MAX_CHILDREN_def)
  have f: "getId (RawObject_getChildren (RawObjectReplElement i n v src ann sv) ! k)
          = i @ '':'' @ showNat k"
    if "k < length (RawObject_getChildren (RawObjectReplElement i n v src ann sv))" for k
    using that by (rule RawObject_getChildren_id)
  have g: "RawObject_getChildren (RawObjectReplElement i n (JObject ps) src ann sv) ! k
          = RawObjectReplElement (i @ '':'' @ showNat k) (fst (ps ! k))
              (case map_of ps (fst (ps ! k)) of Some v \<Rightarrow> v | None \<Rightarrow> JUndefined)
              None None None"
    if "k < min (length ps) 1000" for k
    using that by (simp add: nth_enumerate_eq MAX_CHILDREN_def)
  have g': "RawObject_getChildren (RawObjectReplElement i n (JObject ps) src ann sv) ! k
          = RawObjectReplElement (i @ '':'' @ showNat k) (fst (ps ! k)) (snd (ps ! k))
              None None None"
    if "distinct (map fst ps)" and "k < min (length ps) 1000" for k
  proof -
    from that(2) have "(fst (ps ! k), snd (ps ! k)) \<in> set ps" by simp
    with that(1) have "map_of ps (fst (ps ! k)) = Some (snd (ps ! k))"
      by (rule map_of_is_SomeI)
    with g[OF that(2)] show ?thesis by simp
  qed
  show ?thesis
    using h l a b c d e f g g' by blast
qed

theorem raw_children_witness:
  "length (replicate 1500 JNull) = 1500
   \<and> length (RawObject_getChildren
        (RawObjectReplElement ''r'' ''xs'' (JArray (replicate 1500 JNull)) None None None)) = 1000
   \<and> hasChildren (RawObjectReplElement ''r'' ''xs'' (JArray (replicate 1500 JNull)) None None None)
   \<and> RawObject_getChildren (RawObjectReplElement ''r'' ''n'' (JNumber 7) None None None) = []
   \<and> getId (RawObject_getChildren
        (RawObjectReplElement ''r'' ''xs'' (JArray (replicate 1500 JNull)) None None None) ! 12)
       = ''r:12''"
proof -
  let ?x = "RawObjectReplElement ''r'' ''xs'' (JArray (replicate 1500 JNull)) None None None"
  note t = raw_children[of "''r''" "''xs''" "JArray (replicate 1500 JNull)" None None None
      "replicate 1500 JNull"]
  note u = raw_children[of "''r''" "''n''" "JNumber 7" None None None]
  have n: "length (replicate 1500 JNull) = 1500" by simp
  from t n have len: "length (RawObject_getChildren ?x) = 1000" by blast
  from t have "\<forall>k < length (RawObject_getChildren ?x).
      getId (RawObject_getChildren ?x ! k) = ''r'' @ '':'' @ showNat k"
    by blast
  with len have "getId (RawObject_getChildren ?x ! 12) = ''r'' @ '':'' @ showNat 12"
    by simp
  moreover have "showNat 12 = ''12''" by (simp add: showNat.simps digitChar_def)
  ultimately have id12: "getId (RawObject_getChildren ?x ! 12) = ''r:12''" by simp
  from t have has: "hasChildren ?x" by simp
  from u have none: "RawObject_getChildren (RawObjectReplElement ''r'' ''n'' (JNumber 7) None None None) = []"
    by simp
  from n len has none id12 show ?thesis by blast
qed

subsection \<open>Evaluating an expression in the console\<close>



lemma isOpenGroup_addChild [simp]:
  "isOpenGroup (addChild g c) = isOpenGroup g"
  by (cases g) simp_all






text \<open>
  The store has no handler of its own: were the method of the base class to reject, the
  resumption would reject with the same reason and insert nothing.
\<close>

lemma addReplExpression_resume_rejected:
  "super (ReplEvaluationResult uuid True []) = Inl r \<Longrightarrow>
     addReplExpression_resume m uuid super = (Some r, m)"
  by (simp add: addReplExpression_resume_def ReplEvaluationResult_evaluateExpression_def)




subsection \<open>Output with a clear sequence\<close>

lemma lastIndexOf_ge: "- 1 \<le> lastIndexOf s pat"
  by (induction s) (simp_all add: Let_def)

lemma lastIndexOf_occurs:
  "0 \<le> lastIndexOf s pat \<Longrightarrow>
     nat (lastIndexOf s pat) \<le> length s \<and> prefix pat (drop (nat (lastIndexOf s pat)) s)"
proof (induction s)
  case Nil
  then show ?case by (simp split: if_splits)
next
  case (Cons c cs)
  show ?case
  proof (cases "0 \<le> lastIndexOf cs pat")
    case True
    then have "nat (lastIndexOf cs pat + 1) = Suc (nat (lastIndexOf cs pat))" by simp
    with True Cons.IH show ?thesis by (simp add: Let_def)
  next
    case False
    with Cons.prems show ?thesis by (simp add: Let_def split: if_splits)
  qed
qed

lemma lastIndexOf_greatest:
  "j \<le> length s \<Longrightarrow> prefix pat (drop j s) \<Longrightarrow> int j \<le> lastIndexOf s pat"
proof (induction s arbitrary: j)
  case Nil
  then show ?case by simp
next
  case (Cons c cs)
  show ?case
  proof (cases j)
    case 0
    with Cons.prems show ?thesis by (simp add: Let_def)
  next
    case (Suc j')
    with Cons.prems have "int j' \<le> lastIndexOf cs pat"
      using Cons.IH[of j'] by simp
    with Suc show ?thesis by (simp add: Let_def)
  qed
qed

lemma indexOf_occurs:
  "0 \<le> indexOf s pat \<Longrightarrow> \<exists>j \<le> length s. prefix pat (drop j s)"
proof (induction s)
  case Nil
  then show ?case by (simp split: if_splits)
next
  case (Cons c cs)
  show ?case
  proof (cases "prefix pat (c # cs)")
    case True
    then have "0 \<le> length (c # cs) \<and> prefix pat (drop 0 (c # cs))" by simp
    then show ?thesis by blast
  next
    case False
    with Cons.prems have "0 \<le> indexOf cs pat"
      by (simp add: Let_def split: if_splits)
    then obtain j where "j \<le> length cs" "prefix pat (drop j cs)"
      using Cons.IH by blast
    then have "Suc j \<le> length (c # cs) \<and> prefix pat (drop (Suc j) (c # cs))" by simp
    then show ?thesis by blast
  qed
qed

lemma indexOf_none:
  "indexOf s pat < 0 \<Longrightarrow> j \<le> length s \<Longrightarrow> \<not> prefix pat (drop j s)"
proof (induction s arbitrary: j)
  case Nil
  then show ?case by (simp split: if_splits)
next
  case (Cons c cs)
  from Cons.prems(1) have np: "\<not> prefix pat (c # cs)" and r: "indexOf cs pat < 0"
    by (simp_all add: Let_def split: if_splits)
  show ?case
  proof (cases j)
    case 0
    with np show ?thesis by simp
  next
    case (Suc j')
    with Cons.prems(2) Cons.IH[OF r, of j'] show ?thesis by simp
  qed
qed

lemma indexOf_ge: "- 1 \<le> indexOf s pat"
  by (induction s) (simp_all add: Let_def)

text \<open>The remainder after the last occurrence holds no occurrence.\<close>

lemma after_last_occurrence:
  assumes "0 \<le> indexOf s pat" and "pat \<noteq> []"
  shows "s = take (nat (lastIndexOf s pat)) s @ pat
               @ substring s (lastIndexOf s pat + int (length pat))
         \<and> indexOf (substring s (lastIndexOf s pat + int (length pat))) pat < 0"
proof -
  obtain j where j: "j \<le> length s" "prefix pat (drop j s)"
    using indexOf_occurs[OF assms(1)] by blast
  then have nonneg: "0 \<le> lastIndexOf s pat"
    using lastIndexOf_greatest[of j s pat] by simp
  let ?i = "nat (lastIndexOf s pat)"
  have i: "?i \<le> length s" "prefix pat (drop ?i s)"
    using lastIndexOf_occurs[OF nonneg] by simp_all
  have sub: "substring s (lastIndexOf s pat + int (length pat)) = drop (?i + length pat) s"
    using nonneg by (simp add: substring_def nat_add_distrib)
  from i(2) obtain zs where zs: "drop ?i s = pat @ zs"
    by (auto simp add: prefix_def)
  then have "drop (length pat) (drop ?i s) = zs" by simp
  then have rest: "drop (?i + length pat) s = zs" by (simp add: add.commute)
  have "s = take ?i s @ drop ?i s" by simp
  with zs rest have split: "s = take ?i s @ pat @ drop (?i + length pat) s" by simp
  have none: "indexOf (drop (?i + length pat) s) pat < 0"
  proof (rule ccontr)
    assume "\<not> indexOf (drop (?i + length pat) s) pat < 0"
    then have "0 \<le> indexOf (drop (?i + length pat) s) pat" by simp
    then obtain k where k: "k \<le> length (drop (?i + length pat) s)"
        "prefix pat (drop k (drop (?i + length pat) s))"
      using indexOf_occurs by blast
    have len: "length s = ?i + length pat + length zs"
      using zs i(1) by (metis add.assoc append_take_drop_id length_append length_take min.absorb2)
    have "k + (?i + length pat) \<le> length s" using k(1) len by simp
    moreover have "prefix pat (drop (k + (?i + length pat)) s)" using k(2) by simp
    ultimately have "int (k + (?i + length pat)) \<le> lastIndexOf s pat"
      by (rule lastIndexOf_greatest)
    then have "k + (?i + length pat) \<le> ?i" using nonneg by linarith
    then have "length pat = 0" by simp
    with assms(2) show False by simp
  qed
  from split none sub show ?thesis by simp
qed

lemma indexOf_consoleCleared: "indexOf consoleCleared clearAnsiSequence < 0"
  by (simp add: consoleCleared_def clearAnsiSequence_def)

lemma appendToRepl_plain:
  "indexOf str clearAnsiSequence < 0 \<Longrightarrow>
     appendToRepl m session (Text str) sev source = appendToRepl_string m session str sev source"
  by simp

lemma appendToRepl_clear:
  "0 \<le> indexOf str clearAnsiSequence \<Longrightarrow>
     appendToRepl m session (Text str) sev source =
       appendToRepl_string
         (appendToRepl_string (removeReplExpressions m) session consoleCleared Ignore None)
         session
         (substring str (lastIndexOf str clearAnsiSequence + int (length clearAnsiSequence)))
         sev source"
  using indexOf_consoleCleared by simp

lemma appendToRepl_expression:
  "appendToRepl m session (Expression i n v src ann) sev source
     = addReplElement m (RawObjectReplElement i n v source ann (Some sev))"
  by simp

declare appendToRepl.simps [simp del]

lemma removeReplExpressions_simps [simp]:
  "replElements (removeReplExpressions m) = []"
  "topReplElementCounter (removeReplExpressions m) = topReplElementCounter m"
  "groupCounter (removeReplExpressions m) = groupCounter m"
  "collapseIdenticalLines (removeReplExpressions m) = collapseIdenticalLines m"
  by (simp_all add: removeReplExpressions_def)

lemma notice_appended:
  assumes "replElements m = []"
  shows "appendToRepl_string m session consoleCleared Ignore None
         = addReplElement (m\<lparr>topReplElementCounter := topReplElementCounter m + 1\<rparr>)
             (SimpleReplElement session (getUniqueId (topReplElementCounter m)) consoleCleared Ignore None 1)"
  using assms by (simp add: appendToRepl_string_def Let_def)

lemma notice_store:
  assumes "replElements m = []"
  shows "replElements (appendToRepl_string m session consoleCleared Ignore None)
         = [SimpleReplElement session (getUniqueId (topReplElementCounter m)) consoleCleared Ignore None 1]"
    and "topReplElementCounter (appendToRepl_string m session consoleCleared Ignore None)
         = topReplElementCounter m + 1"
    and "collapseIdenticalLines (appendToRepl_string m session consoleCleared Ignore None)
         = collapseIdenticalLines m"
    and "events (appendToRepl_string m session consoleCleared Ignore None)
         = events m @ [DidChangeElements]"
  using assms by (simp_all add: notice_appended addReplElement_top MAX_REPL_LENGTH_def)

lemma consoleCleared_open_line:
  "\<not> endsWith consoleCleared newline" "\<not> endsWith consoleCleared crlf"
  by (simp_all add: endsWith_def consoleCleared_def newline_def crlf_def suffix_def)


lemma clear_no_overlap:
  assumes "0 < d" "d < 4"
  shows "\<not> prefix clearAnsiSequence (drop d (clearAnsiSequence @ rest))"
proof -
  from assms have "d = 1 \<or> d = 2 \<or> d = 3" by arith
  then show ?thesis
    by (auto simp add: clearAnsiSequence_def)
qed

lemma lastIndexOf_clear:
  assumes "indexOf rest clearAnsiSequence < 0"
  shows "lastIndexOf (pre @ clearAnsiSequence @ rest) clearAnsiSequence = int (length pre)"
proof -
  let ?s = "pre @ clearAnsiSequence @ rest"
  have "length pre \<le> length ?s" "prefix clearAnsiSequence (drop (length pre) ?s)"
    by simp_all
  then have ge: "int (length pre) \<le> lastIndexOf ?s clearAnsiSequence"
    by (rule lastIndexOf_greatest)
  let ?i = "nat (lastIndexOf ?s clearAnsiSequence)"
  have i: "?i \<le> length ?s" "prefix clearAnsiSequence (drop ?i ?s)"
    using lastIndexOf_occurs[of ?s clearAnsiSequence] ge by simp_all
  have "\<not> length pre < ?i"
  proof
    assume gt: "length pre < ?i"
    define d where "d = ?i - length pre"
    have d: "0 < d" "?i = length pre + d" using gt by (simp_all add: d_def)
    have dr: "drop ?i ?s = drop d (clearAnsiSequence @ rest)"
      unfolding d(2) by (simp add: add.commute)
    show False
    proof (cases "d < 4")
      case True
      with d(1) dr i(2) clear_no_overlap[of d rest] show False by simp
    next
      case False
      have "length clearAnsiSequence = 4" by (simp add: clearAnsiSequence_def)
      with False have "drop d (clearAnsiSequence @ rest) = drop (d - 4) rest"
        by simp
      moreover have "d - 4 \<le> length rest"
        using i(1) d(2) False by (simp add: clearAnsiSequence_def)
      ultimately show False
        using indexOf_none[OF assms, of "d - 4"] i(2) dr by simp
    qed
  qed
  with ge show ?thesis by simp
qed

lemma indexOf_found:
  "j \<le> length s \<Longrightarrow> prefix pat (drop j s) \<Longrightarrow> 0 \<le> indexOf s pat"
  using indexOf_none[of s pat j] by fastforce

lemma clear_remainder:
  assumes "indexOf rest clearAnsiSequence < 0"
  shows "0 \<le> indexOf (pre @ clearAnsiSequence @ rest) clearAnsiSequence"
    and "substring (pre @ clearAnsiSequence @ rest)
           (lastIndexOf (pre @ clearAnsiSequence @ rest) clearAnsiSequence
              + int (length clearAnsiSequence)) = rest"
proof -
  have "length pre \<le> length (pre @ clearAnsiSequence @ rest)"
    "prefix clearAnsiSequence (drop (length pre) (pre @ clearAnsiSequence @ rest))"
    by simp_all
  then show "0 \<le> indexOf (pre @ clearAnsiSequence @ rest) clearAnsiSequence"
    by (rule indexOf_found)
  have "nat (int (length pre) + int (length clearAnsiSequence))
      = length pre + length clearAnsiSequence"
    by simp
  then show "substring (pre @ clearAnsiSequence @ rest)
           (lastIndexOf (pre @ clearAnsiSequence @ rest) clearAnsiSequence
              + int (length clearAnsiSequence)) = rest"
    by (simp add: lastIndexOf_clear[OF assms] substring_def del: of_nat_add)
qed


lemma areSourcesEqual_None [simp]: "areSourcesEqual None source = (source = None)"
  by (cases source) simp_all

lemma after_notice:
  assumes "replElements m1 = [SimpleReplElement session i consoleCleared Ignore None 1]"
  shows "replElements (appendToRepl_string m1 session' rest sev source) =
     (if sev = Ignore then
        (if rest = consoleCleared \<and> source = None \<and> collapseIdenticalLines m1
         then [SimpleReplElement session i consoleCleared Ignore None 2]
         else [SimpleReplElement session' (getUniqueId (topReplElementCounter m1))
                 (consoleCleared @ rest) Ignore source 1])
      else [SimpleReplElement session i consoleCleared Ignore None 1,
            SimpleReplElement session' (getUniqueId (topReplElementCounter m1)) rest sev source 1])"
  using assms consoleCleared_open_line
  by (auto simp add: appendToRepl_string_def Let_def addReplElement_top MAX_REPL_LENGTH_def)

text \<open>
  Claim C3, as amended. A text that contains the clear sequence is some text, the
  sequence, and a remainder without the sequence. appendToRepl on it clears the store,
  appends the notice "Console was cleared" with severity Ignore, and then treats the
  remainder as a text of its own, with the notice as the previous entry. With a severity
  other than Ignore the store then holds the notice followed by a new entry with the
  remainder. With the severity Ignore the remainder goes into the notice: the store holds
  one entry, the notice with the remainder glued on, or the notice counted twice when the
  remainder is the notice's text, there is no source and identical lines are collapsed.
\<close>

theorem clear_then_remainder:
  assumes "indexOf rest clearAnsiSequence < 0"
  shows "appendToRepl m session (Text (pre @ clearAnsiSequence @ rest)) sev source
         = appendToRepl_string
             (appendToRepl_string (removeReplExpressions m) session consoleCleared Ignore None)
             session rest sev source
       \<and> replElements
           (appendToRepl_string (removeReplExpressions m) session consoleCleared Ignore None)
         = [SimpleReplElement session (getUniqueId (topReplElementCounter m)) consoleCleared
              Ignore None 1]
       \<and> (sev \<noteq> Ignore \<longrightarrow>
            replElements (appendToRepl m session (Text (pre @ clearAnsiSequence @ rest)) sev source)
            = [SimpleReplElement session (getUniqueId (topReplElementCounter m)) consoleCleared
                 Ignore None 1,
               SimpleReplElement session (getUniqueId (topReplElementCounter m + 1)) rest
                 sev source 1])
       \<and> (sev = Ignore \<and> \<not> (rest = consoleCleared \<and> source = None \<and> collapseIdenticalLines m) \<longrightarrow>
            replElements (appendToRepl m session (Text (pre @ clearAnsiSequence @ rest)) sev source)
            = [SimpleReplElement session (getUniqueId (topReplElementCounter m + 1))
                 (consoleCleared @ rest) Ignore source 1])
       \<and> (sev = Ignore \<and> rest = consoleCleared \<and> source = None \<and> collapseIdenticalLines m \<longrightarrow>
            replElements (appendToRepl m session (Text (pre @ clearAnsiSequence @ rest)) sev source)
            = [SimpleReplElement session (getUniqueId (topReplElementCounter m)) consoleCleared
                 Ignore None 2])
       \<and> (0 \<le> indexOf data clearAnsiSequence \<longrightarrow>
            (\<exists>pre' rest'. data = pre' @ clearAnsiSequence @ rest'
                \<and> indexOf rest' clearAnsiSequence < 0))"
proof -
  let ?m1 = "appendToRepl_string (removeReplExpressions m) session consoleCleared Ignore None"
  have step: "appendToRepl m session (Text (pre @ clearAnsiSequence @ rest)) sev source
         = appendToRepl_string ?m1 session rest sev source"
    using clear_remainder[OF assms, of pre]
    by (simp only: appendToRepl_clear)
  have m1: "replElements ?m1
         = [SimpleReplElement session (getUniqueId (topReplElementCounter m)) consoleCleared
              Ignore None 1]"
    and tc: "topReplElementCounter ?m1 = topReplElementCounter m + 1"
    and col: "collapseIdenticalLines ?m1 = collapseIdenticalLines m"
    using notice_store[of "removeReplExpressions m" session] by simp_all
  note after = after_notice[OF m1, of session rest sev source, unfolded tc col]
  have decomposition: "\<exists>pre' rest'. data = pre' @ clearAnsiSequence @ rest'
                \<and> indexOf rest' clearAnsiSequence < 0"
    if "0 \<le> indexOf data clearAnsiSequence"
  proof -
    have "clearAnsiSequence \<noteq> []" by (simp add: clearAnsiSequence_def)
    from after_last_occurrence[OF that this] show ?thesis by blast
  qed
  have a: "sev \<noteq> Ignore \<Longrightarrow>
            replElements (appendToRepl_string ?m1 session rest sev source)
            = [SimpleReplElement session (getUniqueId (topReplElementCounter m)) consoleCleared
                 Ignore None 1,
               SimpleReplElement session (getUniqueId (topReplElementCounter m + 1)) rest
                 sev source 1]"
    using after by simp
  have b: "sev = Ignore \<and> \<not> (rest = consoleCleared \<and> source = None \<and> collapseIdenticalLines m) \<Longrightarrow>
            replElements (appendToRepl_string ?m1 session rest sev source)
            = [SimpleReplElement session (getUniqueId (topReplElementCounter m + 1))
                 (consoleCleared @ rest) Ignore source 1]"
    using after by auto
  have c: "sev = Ignore \<and> rest = consoleCleared \<and> source = None \<and> collapseIdenticalLines m \<Longrightarrow>
            replElements (appendToRepl_string ?m1 session rest sev source)
            = [SimpleReplElement session (getUniqueId (topReplElementCounter m)) consoleCleared
                 Ignore None 2]"
    using after by simp
  show ?thesis
    unfolding step using m1 a b c decomposition by blast
qed

theorem clear_then_remainder_witness:
  "indexOf ''x'' clearAnsiSequence < 0
   \<and> replElements (appendToRepl (newReplModel True 0 0) ''s''
        (Text ((''a'' @ clearAnsiSequence @ ''b'') @ clearAnsiSequence @ ''x'')) Info None)
     = [SimpleReplElement ''s'' (getUniqueId 0) consoleCleared Ignore None 1,
        SimpleReplElement ''s'' (getUniqueId (0 + 1)) ''x'' Info None 1]"
proof -
  have h: "indexOf ''x'' clearAnsiSequence < 0"
    by (simp add: clearAnsiSequence_def)
  have sev: "Info \<noteq> Ignore" by simp
  note t = clear_then_remainder[OF h, of "newReplModel True 0 0" "''s''"
      "''a'' @ clearAnsiSequence @ ''b''" Info None]
  from t sev have "replElements (appendToRepl (newReplModel True 0 0) ''s''
        (Text ((''a'' @ clearAnsiSequence @ ''b'') @ clearAnsiSequence @ ''x'')) Info None)
     = [SimpleReplElement ''s'' (getUniqueId (topReplElementCounter (newReplModel True 0 0)))
          consoleCleared Ignore None 1,
        SimpleReplElement ''s'' (getUniqueId (topReplElementCounter (newReplModel True 0 0) + 1))
          ''x'' Info None 1]"
    by blast
  then have "replElements (appendToRepl (newReplModel True 0 0) ''s''
        (Text ((''a'' @ clearAnsiSequence @ ''b'') @ clearAnsiSequence @ ''x'')) Info None)
     = [SimpleReplElement ''s'' (getUniqueId 0) consoleCleared Ignore None 1,
        SimpleReplElement ''s'' (getUniqueId (0 + 1)) ''x'' Info None 1]"
    by (simp only: newReplModel_simps)
  with h show ?thesis by blast
qed

text \<open>
  The claim as it stands fails for the severity Ignore: the store ends with one entry,
  not with the notice followed by the remainder.
\<close>

theorem clear_then_remainder_counterexample:
  "replElements (appendToRepl (newReplModel True 0 0) ''s''
      (Text (clearAnsiSequence @ ''x'')) Ignore None)
   = [SimpleReplElement ''s'' (getUniqueId 1) ''Console was clearedx'' Ignore None 1]
   \<and> length (replElements (appendToRepl (newReplModel True 0 0) ''s''
        (Text (clearAnsiSequence @ ''x'')) Ignore None)) = 1"
  by (simp add: appendToRepl.simps clearAnsiSequence_def consoleCleared_def substring_def
      appendToRepl_string_def Let_def addReplElement_def MAX_REPL_LENGTH_def
      removeReplExpressions_def fire_def newReplModel_def endsWith_def newline_def crlf_def
      suffix_def)

subsection \<open>Repeated and streamed output\<close>

lemma areSourcesEqual_refl [simp]: "areSourcesEqual source source"
  by (cases source) simp_all

lemma areSourcesEqual_iff:
  "areSourcesEqual first second =
     ((first = None \<and> second = None)
      \<or> (\<exists>a b. first = Some a \<and> second = Some b \<and> column a = column b
            \<and> lineNumber a = lineNumber b \<and> sourceUri a = sourceUri b))"
  by (cases first; cases second) simp_all

lemma append_new_entry:
  assumes "indexOf data clearAnsiSequence < 0"
    and "replElements m = []
         \<or> (\<not> isOpenGroup (last (replElements m)) \<and> \<not> mergesInto (last (replElements m)) data sev source)"
    and "length (replElements m) < MAX_REPL_LENGTH"
  shows "appendToRepl m session (Text data) sev source
         = m\<lparr>replElements := replElements m
                  @ [SimpleReplElement session (getUniqueId (topReplElementCounter m)) data sev source 1],
              events := events m @ [DidChangeElements],
              topReplElementCounter := topReplElementCounter m + 1\<rparr>"
proof -
  let ?tc = "topReplElementCounter m"
  let ?new = "SimpleReplElement session (getUniqueId ?tc) data sev source 1"
  have added: "addReplElement (m\<lparr>topReplElementCounter := ?tc + 1\<rparr>) ?new
      = m\<lparr>replElements := replElements m @ [?new], events := events m @ [DidChangeElements],
              topReplElementCounter := ?tc + 1\<rparr>"
    using assms(2,3) by (auto simp add: addReplElement_def Let_def fire_def)
  have "appendToRepl_string m session data sev source
      = addReplElement (m\<lparr>topReplElementCounter := ?tc + 1\<rparr>) ?new"
  proof (cases "replElements m = []")
    case True
    then show ?thesis by (simp add: appendToRepl_string_def Let_def)
  next
    case False
    with assms(2) have nm: "\<not> mergesInto (last (replElements m)) data sev source" by blast
    show ?thesis
      using False nm
      by (cases "last (replElements m)") (auto simp add: appendToRepl_string_def Let_def)
  qed
  with added show ?thesis
    by (simp only: appendToRepl_plain[OF assms(1)])
qed

lemma append_repeat:
  assumes "indexOf data clearAnsiSequence < 0"
    and "collapseIdenticalLines m"
    and "replElements m = es @ [SimpleReplElement s0 i data sev source c]"
  shows "appendToRepl m session (Text data) sev source
         = m\<lparr>replElements := es @ [SimpleReplElement s0 i data sev source (c + 1)],
              events := events m @ [DidChangeCount i]\<rparr>"
proof -
  have l: "replElements m \<noteq> []" "last (replElements m) = SimpleReplElement s0 i data sev source c"
    "butlast (replElements m) = es"
    using assms(3) by simp_all
  have "appendToRepl_string m session data sev source
      = m\<lparr>replElements := es @ [SimpleReplElement s0 i data sev source (c + 1)],
              events := events m @ [DidChangeCount i]\<rparr>"
    unfolding appendToRepl_string_def Let_def
    by (simp add: l assms(2) fire_def)
  then show ?thesis
    by (simp only: appendToRepl_plain[OF assms(1)])
qed

lemma append_repeats:
  assumes "indexOf data clearAnsiSequence < 0"
    and "collapseIdenticalLines m"
    and "replElements m = es @ [SimpleReplElement s0 i data sev source c]"
  shows "replElements (foldl (\<lambda>m' session. appendToRepl m' session (Text data) sev source) m sessions)
           = es @ [SimpleReplElement s0 i data sev source (c + length sessions)]
       \<and> events (foldl (\<lambda>m' session. appendToRepl m' session (Text data) sev source) m sessions)
           = events m @ replicate (length sessions) (DidChangeCount i)
       \<and> topReplElementCounter
            (foldl (\<lambda>m' session. appendToRepl m' session (Text data) sev source) m sessions)
           = topReplElementCounter m"
  using assms
proof (induction sessions arbitrary: m c)
  case Nil
  from Nil.prems(3) show ?case by simp
next
  case (Cons s sessions)
  let ?m' = "m\<lparr>replElements := es @ [SimpleReplElement s0 i data sev source (c + 1)],
              events := events m @ [DidChangeCount i]\<rparr>"
  have step: "appendToRepl m s (Text data) sev source = ?m'"
    using Cons.prems by (rule append_repeat)
  have c: "collapseIdenticalLines ?m'" using Cons.prems(2) by simp
  have r: "replElements ?m' = es @ [SimpleReplElement s0 i data sev source (c + 1)]" by simp
  note ih = Cons.IH[OF Cons.prems(1) c r]
  have f: "foldl (\<lambda>m' session. appendToRepl m' session (Text data) sev source) m (s # sessions)
      = foldl (\<lambda>m' session. appendToRepl m' session (Text data) sev source) ?m' sessions"
    by (simp only: foldl_Cons step)
  show ?case
    unfolding f using ih by (simp add: replicate_append_same)
qed


lemmas run_defs = appendToRepl.simps clearAnsiSequence_def consoleCleared_def substring_def appendToRepl_string_def
      Let_def addReplElement_def MAX_REPL_LENGTH_def removeReplExpressions_def fire_def
      newReplModel_def endsWith_def newline_def crlf_def suffix_def startGroup_def
      getUniqueId_def replGroupId_def showNat.simps digitChar_def

text \<open>
  Claim C4, as amended. Take a text without the clear sequence, identical lines being
  collapsed, and a store with fewer than 10,000 top-level entries whose last entry, if
  there is one, is neither an open group nor an entry the text would go into. Then any
  number of appendToRepl calls with that text, severity and source, one at least, add one
  top-level entry: the entry the first call creates, whose count is the number of calls.
  The first call fires the change notification; each later call fires only the count
  notification of that entry. Two sources are equal when both are absent, or both are
  present with the same column, line number and uri.
\<close>

theorem identical_lines_collapse:
  assumes "indexOf data clearAnsiSequence < 0"
    and "collapseIdenticalLines m"
    and "length (replElements m) < MAX_REPL_LENGTH"
    and "replElements m = []
         \<or> (\<not> isOpenGroup (last (replElements m)) \<and> \<not> mergesInto (last (replElements m)) data sev source)"
  shows "replElements
           (foldl (\<lambda>m' session. appendToRepl m' session (Text data) sev source) m (session # sessions))
         = replElements m
             @ [SimpleReplElement session (getUniqueId (topReplElementCounter m)) data sev source
                  (1 + length sessions)]
       \<and> length (replElements
             (foldl (\<lambda>m' session. appendToRepl m' session (Text data) sev source) m (session # sessions)))
         = length (replElements m) + 1
       \<and> events
           (foldl (\<lambda>m' session. appendToRepl m' session (Text data) sev source) m (session # sessions))
         = events m @ [DidChangeElements]
             @ replicate (length sessions) (DidChangeCount (getUniqueId (topReplElementCounter m)))
       \<and> topReplElementCounter
           (foldl (\<lambda>m' session. appendToRepl m' session (Text data) sev source) m (session # sessions))
         = topReplElementCounter m + 1
       \<and> areSourcesEqual first second =
           ((first = None \<and> second = None)
            \<or> (\<exists>a b. first = Some a \<and> second = Some b \<and> column a = column b
                  \<and> lineNumber a = lineNumber b \<and> sourceUri a = sourceUri b))"
proof -
  let ?tc = "topReplElementCounter m"
  let ?m1 = "m\<lparr>replElements := replElements m
                  @ [SimpleReplElement session (getUniqueId ?tc) data sev source 1],
              events := events m @ [DidChangeElements],
              topReplElementCounter := ?tc + 1\<rparr>"
  let ?run = "foldl (\<lambda>m' session. appendToRepl m' session (Text data) sev source)"
  have first: "appendToRepl m session (Text data) sev source = ?m1"
    using assms(1,4,3) by (rule append_new_entry)
  have c: "collapseIdenticalLines ?m1" using assms(2) by simp
  have r: "replElements ?m1
      = replElements m @ [SimpleReplElement session (getUniqueId ?tc) data sev source 1]"
    by simp
  note rest = append_repeats[OF assms(1) c r, of sessions]
  have f: "?run m (session # sessions) = ?run ?m1 sessions"
    by (simp only: foldl_Cons first)
  have e1: "replElements (?run m (session # sessions))
      = replElements m @ [SimpleReplElement session (getUniqueId ?tc) data sev source (1 + length sessions)]"
    unfolding f using rest by simp
  have e2: "events (?run m (session # sessions))
      = events m @ [DidChangeElements] @ replicate (length sessions) (DidChangeCount (getUniqueId ?tc))"
    unfolding f using rest by simp
  have e3: "topReplElementCounter (?run m (session # sessions)) = ?tc + 1"
    unfolding f using rest by simp
  have e4: "length (replElements (?run m (session # sessions))) = length (replElements m) + 1"
    unfolding e1 by simp
  show ?thesis
    using e1 e2 e3 e4 areSourcesEqual_iff[of first second] by blast
qed

theorem identical_lines_collapse_witness:
  "indexOf ''a'' clearAnsiSequence < 0
   \<and> collapseIdenticalLines (newReplModel True 0 0)
   \<and> length (replElements (newReplModel True 0 0)) < MAX_REPL_LENGTH
   \<and> replElements (newReplModel True 0 0) = []
   \<and> replElements
        (foldl (\<lambda>m' session. appendToRepl m' session (Text ''a'') Info None)
           (newReplModel True 0 0) [''s1'', ''s2'', ''s3''])
      = [SimpleReplElement ''s1'' (getUniqueId 0) ''a'' Info None 3]
   \<and> events
        (foldl (\<lambda>m' session. appendToRepl m' session (Text ''a'') Info None)
           (newReplModel True 0 0) [''s1'', ''s2'', ''s3''])
      = [DidChangeElements, DidChangeCount (getUniqueId 0), DidChangeCount (getUniqueId 0)]"
proof -
  have a: "indexOf ''a'' clearAnsiSequence < 0" by (simp add: clearAnsiSequence_def)
  have b: "collapseIdenticalLines (newReplModel True 0 0)" by simp
  have c: "length (replElements (newReplModel True 0 0)) < MAX_REPL_LENGTH"
    by (simp add: MAX_REPL_LENGTH_def)
  have d: "replElements (newReplModel True 0 0) = []" by simp
  have d': "replElements (newReplModel True 0 0) = []
         \<or> (\<not> isOpenGroup (last (replElements (newReplModel True 0 0)))
             \<and> \<not> mergesInto (last (replElements (newReplModel True 0 0))) ''a'' Info None)"
    using d by blast
  note t = identical_lines_collapse[OF a b c d', of "''s1''" "[''s2'', ''s3'']"]
  from t have e: "replElements
        (foldl (\<lambda>m' session. appendToRepl m' session (Text ''a'') Info None)
           (newReplModel True 0 0) [''s1'', ''s2'', ''s3''])
      = [SimpleReplElement ''s1'' (getUniqueId 0) ''a'' Info None 3]"
    by (simp only: newReplModel_simps append_Nil list.size length_Cons One_nat_def) simp
  from t have f: "events
        (foldl (\<lambda>m' session. appendToRepl m' session (Text ''a'') Info None)
           (newReplModel True 0 0) [''s1'', ''s2'', ''s3''])
      = [DidChangeElements, DidChangeCount (getUniqueId 0), DidChangeCount (getUniqueId 0)]"
    by (simp only: newReplModel_simps append_Nil list.size length_Cons One_nat_def)
       (simp add: numeral_2_eq_2)
  from a b c d e f show ?thesis by blast
qed

text \<open>
  The claim as it stands fails: with a text that holds the clear sequence two calls
  leave the notice and an entry with count 1; inside an open group each call adds an
  entry of its own, and none at the top level; after a line of the same severity that is
  still open the texts are glued onto that line; and a full store does not grow.
\<close>

theorem identical_lines_collapse_counterexample:
  "replElements
     (appendToRepl
        (appendToRepl (newReplModel True 0 0) ''s'' (Text (clearAnsiSequence @ ''x'')) Info None)
        ''s'' (Text (clearAnsiSequence @ ''x'')) Info None)
   = [SimpleReplElement ''s'' ''topReplElement:2'' ''Console was cleared'' Ignore None 1,
      SimpleReplElement ''s'' ''topReplElement:3'' ''x'' Info None 1]
   \<and> replElements
     (appendToRepl
        (appendToRepl (startGroup (newReplModel True 0 0) ''G'' False None)
           ''s'' (Text ''a'') Info None)
        ''s'' (Text ''a'') Info None)
   = [ReplGroup ''replGroup:0'' ''G'' False None
        [SimpleReplElement ''s'' ''topReplElement:0'' ''a'' Info None 1,
         SimpleReplElement ''s'' ''topReplElement:1'' ''a'' Info None 1] False]
   \<and> replElements (appendToRepl (newReplModel True 0 0) ''s'' (Text ''a'') Info None)
   = [SimpleReplElement ''s'' ''topReplElement:0'' ''a'' Info None 1]
   \<and> replElements
     (appendToRepl
        (appendToRepl (appendToRepl (newReplModel True 0 0) ''s'' (Text ''a'') Info None)
           ''s'' (Text ''b'') Info None)
        ''s'' (Text ''b'') Info None)
   = [SimpleReplElement ''s'' ''topReplElement:2'' ''abb'' Info None 1]
   \<and> length (replElements
     (appendToRepl
        ((newReplModel True 0 0)\<lparr>replElements := replicate 10000 (ReplEvaluationInput ''u'' ''1'')\<rparr>)
        ''s'' (Text ''a'') Info None)) = 10000"
  by (simp add: run_defs)

subsection \<open>Identities are distinct\<close>

lemma showNat_nonempty: "showNat n \<noteq> []"
  by (subst showNat.simps) simp

lemma digitChar_inj:
  assumes "a < 10" "b < 10" "digitChar a = digitChar b"
  shows "a = b"
proof -
  have "distinct ''0123456789''" by simp
  moreover have "a < length ''0123456789''" "b < length ''0123456789''"
    using assms(1,2) by simp_all
  ultimately show ?thesis
    using assms(3) unfolding digitChar_def by (simp only: nth_eq_iff_index_eq)
qed

lemma showNat_inj: "showNat a = showNat b \<Longrightarrow> a = b"
proof (induction a arbitrary: b rule: showNat.induct)
  case (1 n)
  show ?case
  proof (cases "n < 10")
    case small: True
    then have n: "showNat n = [digitChar n]" by (subst showNat.simps) simp
    show ?thesis
    proof (cases "b < 10")
      case True
      then have "showNat b = [digitChar b]" by (subst showNat.simps) simp
      with n "1.prems" small True show ?thesis by (simp add: digitChar_inj)
    next
      case False
      then have "showNat b = showNat (b div 10) @ [digitChar (b mod 10)]"
        by (subst showNat.simps) simp
      with n "1.prems" have "showNat (b div 10) = []" by simp
      with showNat_nonempty show ?thesis by blast
    qed
  next
    case big: False
    then have n: "showNat n = showNat (n div 10) @ [digitChar (n mod 10)]"
      by (subst showNat.simps) simp
    show ?thesis
    proof (cases "b < 10")
      case True
      then have "showNat b = [digitChar b]" by (subst showNat.simps) simp
      with n "1.prems" have "showNat (n div 10) = []" by simp
      with showNat_nonempty show ?thesis by blast
    next
      case False
      then have "showNat b = showNat (b div 10) @ [digitChar (b mod 10)]"
        by (subst showNat.simps) simp
      with n "1.prems" have eq: "showNat (n div 10) = showNat (b div 10)"
        "digitChar (n mod 10) = digitChar (b mod 10)" by simp_all
      from "1.IH"[OF big eq(1)] have d: "n div 10 = b div 10" .
      have m: "n mod 10 = b mod 10"
        using eq(2) by (intro digitChar_inj) simp_all
      from d m show ?thesis
        by (metis div_mult_mod_eq)
    qed
  qed
qed

lemma getUniqueId_inj: "getUniqueId a = getUniqueId b \<Longrightarrow> a = b"
  by (simp add: getUniqueId_def showNat_inj)

lemma replGroupId_inj: "replGroupId a = replGroupId b \<Longrightarrow> a = b"
  by (simp add: replGroupId_def showNat_inj)

subsection \<open>The identities of text entries\<close>

lemma simpleIdBelow_mono: "simpleIdBelow n e \<Longrightarrow> n \<le> n' \<Longrightarrow> simpleIdBelow n' e"
  by (cases e) auto

lemma simpleIdBelow_group: "isGroup e \<Longrightarrow> simpleIdBelow n e"
  by (cases e) simp_all

lemma isGroup_addChild: "isOpenGroup g \<Longrightarrow> isGroup (addChild g c)"
  by (cases g) simp_all

lemma isGroup_ReplGroup_end: "isGroup g \<Longrightarrow> isGroup (ReplGroup_end g)"
  by (cases g) simp_all

lemma idsIssued_addReplElement:
  assumes "idsIssued m" "simpleIdBelow (topReplElementCounter m) e"
  shows "idsIssued (addReplElement m e)"
proof (cases "replElements m \<noteq> [] \<and> isOpenGroup (last (replElements m))")
  case True
  then have r: "replElements (addReplElement m e)
      = butlast (replElements m) @ [addChild (last (replElements m)) e]"
    by (simp add: addReplElement_nested)
  have "list_all (simpleIdBelow (topReplElementCounter m)) (butlast (replElements m))"
    using assms(1) by (auto simp add: idsIssued_def list_all_iff dest: in_set_butlastD)
  moreover have "simpleIdBelow (topReplElementCounter m) (addChild (last (replElements m)) e)"
    using True by (simp add: simpleIdBelow_group isGroup_addChild)
  ultimately show ?thesis
    by (simp add: idsIssued_def r)
next
  case False
  then have r: "replElements (addReplElement m e)
      = drop (length (replElements m) + 1 - MAX_REPL_LENGTH) (replElements m @ [e])"
    by (intro addReplElement_top) blast
  have "list_all (simpleIdBelow (topReplElementCounter m)) (replElements m @ [e])"
    using assms by (simp add: idsIssued_def)
  then show ?thesis
    unfolding idsIssued_def r by (auto simp add: list_all_iff dest: in_set_dropD)
qed

lemma idsIssued_next:
  assumes "idsIssued m"
  shows "idsIssued (m\<lparr>topReplElementCounter := topReplElementCounter m + 1\<rparr>)"
  using assms by (auto simp add: idsIssued_def list_all_iff intro: simpleIdBelow_mono)

lemma idsIssued_new:
  assumes "idsIssued m"
  shows "idsIssued (addReplElement (m\<lparr>topReplElementCounter := topReplElementCounter m + 1\<rparr>)
           (SimpleReplElement session (getUniqueId (topReplElementCounter m)) data sev source 1))"
  using idsIssued_next[OF assms] by (intro idsIssued_addReplElement) simp_all

lemma idsIssued_appendToRepl_string:
  assumes "idsIssued m"
  shows "idsIssued (appendToRepl_string m session data sev source)"
proof (cases "replElements m = []")
  case True
  then show ?thesis
    using idsIssued_new[OF assms] by (simp add: appendToRepl_string_def Let_def)
next
  case False
  have init: "list_all (simpleIdBelow (topReplElementCounter m)) (butlast (replElements m))"
    using assms by (auto simp add: idsIssued_def list_all_iff dest: in_set_butlastD)
  have lst: "simpleIdBelow (topReplElementCounter m) (last (replElements m))"
    using assms False by (simp add: idsIssued_def list_all_iff)
  show ?thesis
  proof (cases "last (replElements m)")
    case (SimpleReplElement pse pid pvalue psev psrc pcount)
    have bump: "idsIssued (fire (DidChangeCount pid)
                      (m\<lparr>replElements := butlast (replElements m)
                           @ [SimpleReplElement pse pid v sv psrc c]\<rparr>))" for v sv c
      using init lst SimpleReplElement by (simp add: idsIssued_def)
    have init': "list_all (simpleIdBelow (topReplElementCounter m + 1)) (butlast (replElements m))"
      using init by (auto simp add: list_all_iff intro: simpleIdBelow_mono)
    have glue: "idsIssued (fire DidChangeElements
                      (m\<lparr>replElements := butlast (replElements m) @
                             [SimpleReplElement session (getUniqueId (topReplElementCounter m))
                                v sev source 1],
                         topReplElementCounter := topReplElementCounter m + 1\<rparr>))" for v
      using init' by (simp add: idsIssued_def)
    show ?thesis
      using False SimpleReplElement bump glue idsIssued_new[OF assms]
      by (simp add: appendToRepl_string_def Let_def)
  qed (use False idsIssued_new[OF assms] in \<open>simp_all add: appendToRepl_string_def Let_def\<close>)
qed

lemma idsIssued_removeReplExpressions: "idsIssued (removeReplExpressions m)"
  by (simp add: idsIssued_def)

lemma idsIssued_appendToRepl:
  assumes "idsIssued m"
  shows "idsIssued (appendToRepl m session data sev source)"
proof (cases data)
  case (Text str)
  show ?thesis
  proof (cases "0 \<le> indexOf str clearAnsiSequence")
    case True
    then show ?thesis
      unfolding Text
      by (simp only: appendToRepl_clear idsIssued_appendToRepl_string idsIssued_removeReplExpressions)
  next
    case False
    then have "indexOf str clearAnsiSequence < 0" by simp
    then show ?thesis
      unfolding Text
      by (simp only: appendToRepl_plain idsIssued_appendToRepl_string[OF assms])
  qed
next
  case (Expression i n v src ann)
  then show ?thesis
    using assms by (simp add: appendToRepl_expression idsIssued_addReplElement)
qed

lemma idsIssued_startGroup: "idsIssued m \<Longrightarrow> idsIssued (startGroup m name autoExpand source)"
  unfolding startGroup_def Let_def
  by (rule idsIssued_addReplElement) (simp_all add: idsIssued_def)

lemma idsIssued_endGroup: "idsIssued m \<Longrightarrow> idsIssued (endGroup m)"
  by (auto simp add: endGroup_def Let_def idsIssued_def list_all_iff simpleIdBelow_group
      isGroup_ReplGroup_end dest: in_set_butlastD)

lemma addReplExpression_resume_eq:
  "snd (addReplExpression_resume m uuid (ExpressionContainer_evaluateExpression (Evaluation ok val)))
     = addReplElement m (ReplEvaluationResult uuid ok val)"
  by (simp add: addReplExpression_resume_def ReplEvaluationResult_evaluateExpression_def)

lemma idsIssued_exec: "idsIssued m \<Longrightarrow> idsIssued (exec m op)"
proof (cases op)
  case (AddReplExpressionResume uuid ev)
  assume "idsIssued m"
  then show ?thesis
    unfolding AddReplExpressionResume
    by (cases ev) (simp add: addReplExpression_resume_eq idsIssued_addReplElement)
qed (simp_all add: idsIssued_appendToRepl idsIssued_startGroup idsIssued_endGroup
      idsIssued_removeReplExpressions idsIssued_addReplElement addReplExpression_begin_def)

lemma idsIssued_run: "idsIssued m \<Longrightarrow> idsIssued (run m ops)"
  unfolding run_def by (induction ops arbitrary: m) (simp_all add: idsIssued_exec)

lemma idsIssued_new_model: "idsIssued (newReplModel collapse tc gc)"
  by (simp add: idsIssued_def)

lemma endsWith_crlf_newline: "endsWith v crlf \<Longrightarrow> endsWith v newline"
  by (auto simp add: endsWith_def crlf_def newline_def suffix_def)

lemma glue_onto_line:
  assumes "indexOf data clearAnsiSequence < 0"
    and "replElements m = es @ [SimpleReplElement pse pid pvalue sev psrc 1]"
    and "\<not> (pvalue = data \<and> areSourcesEqual psrc source \<and> collapseIdenticalLines m)"
    and "\<not> endsWith pvalue newline"
  shows "appendToRepl m session (Text data) sev source
         = m\<lparr>replElements := es @ [SimpleReplElement session
                  (getUniqueId (topReplElementCounter m)) (pvalue @ data) sev source 1],
              events := events m @ [DidChangeElements],
              topReplElementCounter := topReplElementCounter m + 1\<rparr>"
proof -
  have l: "replElements m \<noteq> []" "last (replElements m) = SimpleReplElement pse pid pvalue sev psrc 1"
    "butlast (replElements m) = es"
    using assms(2) by simp_all
  have c: "\<not> endsWith pvalue crlf"
    using assms(4) endsWith_crlf_newline by blast
  have "appendToRepl_string m session data sev source
      = m\<lparr>replElements := es @ [SimpleReplElement session
                  (getUniqueId (topReplElementCounter m)) (pvalue @ data) sev source 1],
              events := events m @ [DidChangeElements],
              topReplElementCounter := topReplElementCounter m + 1\<rparr>"
    unfolding appendToRepl_string_def Let_def
    using assms(3,4) c by (auto simp add: l fire_def)
  then show ?thesis
    by (simp only: appendToRepl_plain[OF assms(1)])
qed

text \<open>
  Claim C5, as amended. Take an appendToRepl call with a text without the clear
  sequence, where the last top-level entry is a text entry of the call's severity with
  count 1 whose text does not end in a newline, and the text is not a repeat of it that
  is collapsed. The call replaces that last entry, and no other, by a text entry holding
  the previous text followed by the new text; the top level keeps its length; the change
  notification fires once. The new entry's identity is the next one of the counter; in a
  store reached through the public operations it differs from the replaced entry's.
\<close>

theorem streamed_output_glued:
  assumes "indexOf data clearAnsiSequence < 0"
    and "replElements m = es @ [SimpleReplElement pse pid pvalue sev psrc 1]"
    and "\<not> (pvalue = data \<and> areSourcesEqual psrc source \<and> collapseIdenticalLines m)"
    and "\<not> endsWith pvalue newline"
  shows "replElements (appendToRepl m session (Text data) sev source)
         = es @ [SimpleReplElement session (getUniqueId (topReplElementCounter m))
                   (pvalue @ data) sev source 1]
       \<and> length (replElements (appendToRepl m session (Text data) sev source))
         = length (replElements m)
       \<and> (m = run (newReplModel collapse tc0 gc0) ops \<longrightarrow>
            getUniqueId (topReplElementCounter m) \<noteq> pid)
       \<and> events (appendToRepl m session (Text data) sev source)
         = events m @ [DidChangeElements]
       \<and> topReplElementCounter (appendToRepl m session (Text data) sev source)
         = topReplElementCounter m + 1"
proof -
  note step = glue_onto_line[OF assms, of session]
  have fresh: "getUniqueId (topReplElementCounter m) \<noteq> pid"
    if reached: "m = run (newReplModel collapse tc0 gc0) ops"
  proof
    have "idsIssued m"
      unfolding reached by (intro idsIssued_run idsIssued_new_model)
    then have "simpleIdBelow (topReplElementCounter m) (SimpleReplElement pse pid pvalue sev psrc 1)"
      by (simp add: idsIssued_def assms(2))
    then obtain k where k: "k < topReplElementCounter m" "pid = getUniqueId k"
      by auto
    assume "getUniqueId (topReplElementCounter m) = pid"
    with k(2) have "topReplElementCounter m = k" by (simp add: getUniqueId_inj)
    with k(1) show False by simp
  qed
  have e1: "replElements (appendToRepl m session (Text data) sev source)
         = es @ [SimpleReplElement session (getUniqueId (topReplElementCounter m))
                   (pvalue @ data) sev source 1]"
    and e2: "events (appendToRepl m session (Text data) sev source)
         = events m @ [DidChangeElements]"
    and e3: "topReplElementCounter (appendToRepl m session (Text data) sev source)
         = topReplElementCounter m + 1"
    unfolding step by simp_all
  have e4: "length (replElements (appendToRepl m session (Text data) sev source))
         = length (replElements m)"
    unfolding e1 assms(2) by simp
  from e1 e2 e3 e4 fresh show ?thesis by blast
qed

theorem streamed_output_glued_witness:
  "indexOf ''b'' clearAnsiSequence < 0
   \<and> replElements (run (newReplModel True 0 0) [AppendToRepl ''s'' (Text ''a'') Info None])
       = [] @ [SimpleReplElement ''s'' ''topReplElement:0'' ''a'' Info None 1]
   \<and> \<not> endsWith ''a'' newline
   \<and> replElements
        (appendToRepl (run (newReplModel True 0 0) [AppendToRepl ''s'' (Text ''a'') Info None])
           ''s'' (Text ''b'') Info None)
       = [SimpleReplElement ''s'' ''topReplElement:1'' ''ab'' Info None 1]
   \<and> ''topReplElement:1'' \<noteq> ''topReplElement:0''"
proof -
  let ?m = "run (newReplModel True 0 0) [AppendToRepl ''s'' (Text ''a'') Info None]"
  have a: "?m = run (newReplModel True 0 0) [AppendToRepl ''s'' (Text ''a'') Info None]" by simp
  have b: "indexOf ''b'' clearAnsiSequence < 0" by (simp add: clearAnsiSequence_def)
  have c: "replElements ?m = [] @ [SimpleReplElement ''s'' ''topReplElement:0'' ''a'' Info None 1]"
    by (simp add: run_def run_defs)
  have d: "\<not> (''a'' = ''b'' \<and> areSourcesEqual None None \<and> collapseIdenticalLines ?m)" by simp
  have e: "\<not> endsWith ''a'' newline" by (simp add: endsWith_def newline_def suffix_def)
  have tc: "topReplElementCounter ?m = 1" by (simp add: run_def run_defs)
  have id1: "getUniqueId 1 = ''topReplElement:1''"
    by (simp add: getUniqueId_def showNat.simps digitChar_def)
  note t = streamed_output_glued[OF b c d e, of "''s''" True 0 0
      "[AppendToRepl ''s'' (Text ''a'') Info None]", unfolded tc id1]
  from t have f: "replElements (appendToRepl ?m ''s'' (Text ''b'') Info None)
       = [SimpleReplElement ''s'' ''topReplElement:1'' ''ab'' Info None 1]"
    by simp
  from t a have g: "''topReplElement:1'' \<noteq> ''topReplElement:0''" by blast
  from b c e f g show ?thesis by blast
qed

text \<open>
  The claim as it stands fails when the new text holds the clear sequence: the open
  line is removed with the rest of the log, and two entries are left.
\<close>

theorem streamed_output_glued_counterexample:
  "replElements (appendToRepl (newReplModel True 0 0) ''s'' (Text ''a'') Info None)
   = [SimpleReplElement ''s'' ''topReplElement:0'' ''a'' Info None 1]
   \<and> replElements
     (appendToRepl (appendToRepl (newReplModel True 0 0) ''s'' (Text ''a'') Info None)
        ''s'' (Text (clearAnsiSequence @ ''b'')) Info None)
   = [SimpleReplElement ''s'' ''topReplElement:1'' ''Console was cleared'' Ignore None 1,
      SimpleReplElement ''s'' ''topReplElement:2'' ''b'' Info None 1]"
  by (simp add: run_defs)

subsection \<open>Closed groups\<close>

lemma concat_map_butlast_last:
  "xs \<noteq> [] \<Longrightarrow> concat (map f (butlast xs)) @ f (last xs) = concat (map f xs)"
  by (induction xs) simp_all

lemma groupNodes_self: "isGroup g \<Longrightarrow> g \<in> set (groupNodes g)"
  by (cases g) simp_all

lemma groupNodes_are_groups: "x \<in> set (groupNodes g) \<Longrightarrow> isGroup x"
proof (induction g arbitrary: x rule: groupNodes.induct)
  case (1 i n a src ch e)
  then show ?case by auto
qed simp_all

text \<open>Adding a child: where the groups of the result come from.\<close>

lemma groupNodes_addChild_ids:
  "isOpenGroup g \<Longrightarrow>
     map getId (groupNodes (addChild g c)) = map getId (groupNodes g) @ map getId (groupNodes c)"
proof (induction g c rule: addChild.induct)
  case (1 i n a src ch e child)
  show ?case
  proof (cases "ch \<noteq> [] \<and> isOpenGroup (last ch)")
    case True
    then have ih: "map getId (groupNodes (addChild (last ch) child))
        = map getId (groupNodes (last ch)) @ map getId (groupNodes child)"
      using "1.IH" by simp
    have "concat (map groupNodes (butlast ch)) @ groupNodes (last ch) = concat (map groupNodes ch)"
      using True by (simp add: concat_map_butlast_last)
    then have "map getId (concat (map groupNodes (butlast ch))) @ map getId (groupNodes (last ch))
        = map getId (concat (map groupNodes ch))"
      by (metis map_append)
    with True ih show ?thesis by simp
  next
    case False
    then show ?thesis by auto
  qed
qed simp_all

lemma groupNodes_addChild_origin:
  "isOpenGroup g \<Longrightarrow> x \<in> set (groupNodes (addChild g c)) \<Longrightarrow>
     x \<in> set (groupNodes g) \<or> x \<in> set (groupNodes c)
     \<or> (\<exists>h \<in> set (groupNodes g). isOpenGroup h \<and> \<not> hasEnded x \<and> getId h = getId x)"
proof (induction g c arbitrary: x rule: addChild.induct)
  case (1 i n a src ch e child)
  let ?g = "ReplGroup i n a src ch e"
  have self: "?g \<in> set (groupNodes ?g)" by simp
  have sub: "set (groupNodes y) \<subseteq> set (groupNodes ?g)" if "y \<in> set ch" for y
    using that by auto
  show ?case
  proof (cases "ch \<noteq> [] \<and> isOpenGroup (last ch)")
    case True
    then have lastin: "last ch \<in> set ch" by simp
    from True "1.prems"(2) consider
        "x = ReplGroup i n a src (butlast ch @ [addChild (last ch) child]) e"
      | "x \<in> set (concat (map groupNodes (butlast ch)))"
      | "x \<in> set (groupNodes (addChild (last ch) child))"
      by auto
    then show ?thesis
    proof cases
      case 1
      with "1.prems"(1) self show ?thesis by auto
    next
      case 2
      then obtain y where "y \<in> set (butlast ch)" "x \<in> set (groupNodes y)" by auto
      then have "x \<in> set (groupNodes ?g)" using sub[of y] by (auto dest: in_set_butlastD)
      then show ?thesis by blast
    next
      case 3
      from "1.IH"[OF True _ 3] True
      have "x \<in> set (groupNodes (last ch)) \<or> x \<in> set (groupNodes child)
          \<or> (\<exists>h \<in> set (groupNodes (last ch)). isOpenGroup h \<and> \<not> hasEnded x \<and> getId h = getId x)"
        by simp
      with sub[OF lastin] show ?thesis by blast
    qed
  next
    case False
    with "1.prems"(2) consider "x = ReplGroup i n a src (ch @ [child]) e"
      | "x \<in> set (concat (map groupNodes ch))" | "x \<in> set (groupNodes child)"
      by auto
    then show ?thesis
    proof cases
      case 1
      with "1.prems"(1) self show ?thesis by auto
    next
      case 2
      then show ?thesis by simp
    next
      case 3
      then show ?thesis by blast
    qed
  qed
qed simp_all

lemma groupNodes_end_ids:
  "map getId (groupNodes (ReplGroup_end g)) = map getId (groupNodes g)"
proof (induction g rule: ReplGroup_end.induct)
  case (1 i n a src ch e)
  show ?case
  proof (cases "ch \<noteq> [] \<and> isOpenGroup (last ch)")
    case True
    then have ih: "map getId (groupNodes (ReplGroup_end (last ch))) = map getId (groupNodes (last ch))"
      using "1.IH" by simp
    have "concat (map groupNodes (butlast ch)) @ groupNodes (last ch) = concat (map groupNodes ch)"
      using True by (simp add: concat_map_butlast_last)
    then have "map getId (concat (map groupNodes (butlast ch))) @ map getId (groupNodes (last ch))
        = map getId (concat (map groupNodes ch))"
      by (metis map_append)
    with True ih show ?thesis by simp
  next
    case False
    then show ?thesis by auto
  qed
qed simp_all

lemma groupNodes_end_origin:
  "x \<in> set (groupNodes (ReplGroup_end g)) \<Longrightarrow>
     x \<in> set (groupNodes g)
     \<or> (\<exists>h \<in> set (groupNodes g). isOpenGroup h \<and> getId h = getId x)
     \<or> (hasEnded g \<and> getChildren g \<noteq> [] \<and> isOpenGroup (last (getChildren g)))"
proof (induction g arbitrary: x rule: ReplGroup_end.induct)
  case (1 i n a src ch e)
  let ?g = "ReplGroup i n a src ch e"
  have sub: "set (groupNodes y) \<subseteq> set (groupNodes ?g)" if "y \<in> set ch" for y
    using that by auto
  show ?case
  proof (cases "ch \<noteq> [] \<and> isOpenGroup (last ch)")
    case True
    then have lastin: "last ch \<in> set ch" by simp
    from True "1.prems" consider
        "x = ReplGroup i n a src (butlast ch @ [ReplGroup_end (last ch)]) e"
      | "x \<in> set (concat (map groupNodes (butlast ch)))"
      | "x \<in> set (groupNodes (ReplGroup_end (last ch)))"
      by auto
    then show ?thesis
    proof cases
      case 1
      show ?thesis
      proof (cases e)
        case True
        with \<open>ch \<noteq> [] \<and> isOpenGroup (last ch)\<close> show ?thesis by simp
      next
        case False
        then have "isOpenGroup ?g \<and> getId ?g = getId x" using 1 by simp
        then show ?thesis by (metis groupNodes_self isGroup.simps(1))
      qed
    next
      case 2
      then obtain y where "y \<in> set (butlast ch)" "x \<in> set (groupNodes y)" by auto
      then have "x \<in> set (groupNodes ?g)" using sub[of y] by (auto dest: in_set_butlastD)
      then show ?thesis by blast
    next
      case 3
      have "\<not> hasEnded (last ch)" using True by (cases "last ch") simp_all
      with "1.IH"[OF True 3]
      have "x \<in> set (groupNodes (last ch))
          \<or> (\<exists>h \<in> set (groupNodes (last ch)). isOpenGroup h \<and> getId h = getId x)"
        by blast
      with sub[OF lastin] show ?thesis by blast
    qed
  next
    case False
    with "1.prems" consider "x = ReplGroup i n a src ch True"
      | "x \<in> set (concat (map groupNodes ch))"
      by auto
    then show ?thesis
    proof cases
      case 1
      show ?thesis
      proof (cases e)
        case True
        with 1 show ?thesis by simp
      next
        case False
        then have "isOpenGroup ?g \<and> getId ?g = getId x" using 1 by simp
        then show ?thesis by (metis groupNodes_self isGroup.simps(1))
      qed
    next
      case 2
      then show ?thesis by simp
    qed
  qed
qed simp_all

lemma open_closedSettled: "\<not> hasEnded x \<Longrightarrow> closedSettled x"
  by (cases x) simp_all

lemma isOpenGroup_not_ended: "isOpenGroup h \<Longrightarrow> \<not> hasEnded h"
  by (cases h) simp_all

lemma closedSettled_addChild:
  assumes "isOpenGroup g"
    and "list_all closedSettled (groupNodes g)"
    and "list_all closedSettled (groupNodes c)"
  shows "list_all closedSettled (groupNodes (addChild g c))"
  unfolding list_all_iff
proof
  fix x assume "x \<in> set (groupNodes (addChild g c))"
  from groupNodes_addChild_origin[OF assms(1) this] assms(2,3)
  show "closedSettled x"
    by (auto simp add: list_all_iff open_closedSettled)
qed

lemma closedSettled_end:
  "list_all closedSettled (groupNodes g) \<Longrightarrow> list_all closedSettled (groupNodes (ReplGroup_end g))"
proof (induction g rule: ReplGroup_end.induct)
  case (1 i n a src ch e)
  show ?case
  proof (cases "ch \<noteq> [] \<and> isOpenGroup (last ch)")
    case True
    then have lastin: "last ch \<in> set ch" by simp
    from "1.prems" True have e: "\<not> e" by simp
    from "1.prems" have all: "\<forall>y \<in> set ch. list_all closedSettled (groupNodes y)"
      by (simp add: list_all_iff)
    then have "list_all closedSettled (groupNodes (ReplGroup_end (last ch)))"
      using "1.IH"[OF True] lastin by blast
    moreover have "\<forall>y \<in> set (butlast ch). list_all closedSettled (groupNodes y)"
      using all by (auto dest: in_set_butlastD)
    ultimately show ?thesis
      using True e by (auto simp add: list_all_iff)
  next
    case False
    with "1.prems" show ?thesis by (auto simp add: list_all_iff)
  qed
qed simp_all

lemma ReplGroup_end_settled:
  "hasEnded g \<Longrightarrow> closedSettled g \<Longrightarrow> ReplGroup_end g = g"
  by (cases g) auto

text \<open>The groups of the store after an insert.\<close>

lemma allGroups_snoc:
  "concat (map groupNodes (xs @ [y])) = concat (map groupNodes xs) @ groupNodes y"
  by simp

lemma allGroups_last:
  "es \<noteq> [] \<Longrightarrow> concat (map groupNodes (butlast es)) @ groupNodes (last es) = concat (map groupNodes es)"
  by (rule concat_map_butlast_last)

lemma allGroups_updates [simp]:
  "allGroups (m\<lparr>topReplElementCounter := t\<rparr>) = allGroups m"
  "allGroups (m\<lparr>groupCounter := g\<rparr>) = allGroups m"
  "allGroups (m\<lparr>events := ev\<rparr>) = allGroups m"
  "allGroups (fire e m) = allGroups m"
  by (simp_all add: allGroups_def)

lemma allGroups_addReplElement_ids:
  "\<exists>pre. map getId (allGroups m) @ map getId (groupNodes c)
          = pre @ map getId (allGroups (addReplElement m c))"
proof (cases "replElements m \<noteq> [] \<and> isOpenGroup (last (replElements m))")
  case True
  let ?es = "replElements m"
  have "allGroups (addReplElement m c)
      = concat (map groupNodes (butlast ?es)) @ groupNodes (addChild (last ?es) c)"
    using True by (simp add: allGroups_def addReplElement_nested)
  then have "map getId (allGroups (addReplElement m c))
      = (map getId (concat (map groupNodes (butlast ?es)))
        @ map getId (groupNodes (last ?es))) @ map getId (groupNodes c)"
    using True by (simp add: groupNodes_addChild_ids)
  moreover have "map getId (concat (map groupNodes (butlast ?es)))
        @ map getId (groupNodes (last ?es)) = map getId (allGroups m)"
    using True by (metis allGroups_last map_append allGroups_def)
  ultimately have "map getId (allGroups m) @ map getId (groupNodes c)
      = [] @ map getId (allGroups (addReplElement m c))" by simp
  then show ?thesis by blast
next
  case False
  let ?es = "replElements m"
  let ?k = "length ?es + 1 - MAX_REPL_LENGTH"
  from False have r: "replElements (addReplElement m c) = drop ?k (?es @ [c])"
    by (intro addReplElement_top) blast
  obtain pre where pre: "concat (map groupNodes (?es @ [c]))
      = pre @ concat (map groupNodes (drop ?k (?es @ [c])))"
    by (metis append_take_drop_id concat_append map_append)
  have lhs: "map getId (allGroups m) @ map getId (groupNodes c)
      = map getId (concat (map groupNodes (?es @ [c])))"
    by (simp add: allGroups_def)
  have rhs: "allGroups (addReplElement m c) = concat (map groupNodes (drop ?k (?es @ [c])))"
    unfolding allGroups_def r ..
  have "map getId (allGroups m) @ map getId (groupNodes c)
      = map getId pre @ map getId (allGroups (addReplElement m c))"
    unfolding lhs rhs pre by (rule map_append)
  then show ?thesis by blast
qed

lemma allGroups_addReplElement_origin:
  assumes "x \<in> set (allGroups (addReplElement m c))"
  shows "x \<in> set (allGroups m) \<or> x \<in> set (groupNodes c)
     \<or> (\<exists>h \<in> set (allGroups m). isOpenGroup h \<and> \<not> hasEnded x \<and> getId h = getId x)"
proof (cases "replElements m \<noteq> [] \<and> isOpenGroup (last (replElements m))")
  case True
  let ?es = "replElements m"
  have sub: "set (groupNodes y) \<subseteq> set (allGroups m)" if "y \<in> set ?es" for y
    using that by (auto simp add: allGroups_def)
  have lastin: "last ?es \<in> set ?es" using True by simp
  have "allGroups (addReplElement m c)
      = concat (map groupNodes (butlast ?es)) @ groupNodes (addChild (last ?es) c)"
    using True by (simp add: allGroups_def addReplElement_nested)
  with assms consider "x \<in> set (concat (map groupNodes (butlast ?es)))"
    | "x \<in> set (groupNodes (addChild (last ?es) c))" by auto
  then show ?thesis
  proof cases
    case 1
    then obtain y where "y \<in> set (butlast ?es)" "x \<in> set (groupNodes y)" by auto
    then have "x \<in> set (allGroups m)" using sub[of y] by (auto dest: in_set_butlastD)
    then show ?thesis by blast
  next
    case 2
    from groupNodes_addChild_origin[OF _ 2] True sub[OF lastin] show ?thesis by blast
  qed
next
  case False
  let ?es = "replElements m"
  from False have r: "replElements (addReplElement m c)
      = drop (length ?es + 1 - MAX_REPL_LENGTH) (?es @ [c])"
    by (intro addReplElement_top) blast
  from assms obtain y where y: "y \<in> set (replElements (addReplElement m c))" "x \<in> set (groupNodes y)"
    by (auto simp add: allGroups_def)
  from y(1) have "y \<in> set (?es @ [c])" unfolding r by (rule in_set_dropD)
  with y(2) show ?thesis by (auto simp add: allGroups_def)
qed

lemma groupsWellFormed_addReplElement:
  assumes "groupsWellFormed m"
    and "list_all closedSettled (groupNodes c)"
    and "list_all (\<lambda>g. getId g \<in> replGroupId ` {..<groupCounter m}) (groupNodes c)"
    and "distinct (map getId (allGroups m) @ map getId (groupNodes c))"
  shows "groupsWellFormed (addReplElement m c)"
proof -
  obtain pre where pre: "map getId (allGroups m) @ map getId (groupNodes c)
          = pre @ map getId (allGroups (addReplElement m c))"
    using allGroups_addReplElement_ids by blast
  from assms(4) have d: "distinct (map getId (allGroups (addReplElement m c)))"
    unfolding pre by simp
  have rest: "getId x \<in> replGroupId ` {..<groupCounter m} \<and> closedSettled x"
    if "x \<in> set (allGroups (addReplElement m c))" for x
  proof -
    from allGroups_addReplElement_origin[OF that] consider
        "x \<in> set (allGroups m)" | "x \<in> set (groupNodes c)"
      | h where "h \<in> set (allGroups m)" "\<not> hasEnded x" "getId h = getId x"
      by blast
    then show ?thesis
    proof cases
      case 1
      with assms(1) show ?thesis by (simp add: groupsWellFormed_def list_all_iff)
    next
      case 2
      with assms(2,3) show ?thesis by (simp add: list_all_iff)
    next
      case 3
      from 3(1) assms(1) have "getId h \<in> replGroupId ` {..<groupCounter m}"
        by (simp add: groupsWellFormed_def list_all_iff)
      with 3(2,3) show ?thesis by (simp add: open_closedSettled)
    qed
  qed
  from d rest show ?thesis
    by (simp add: groupsWellFormed_def list_all_iff)
qed

lemma groupsWellFormed_insert_leaf:
  assumes "groupsWellFormed m" "groupNodes c = []"
  shows "groupsWellFormed (addReplElement m c)"
  using assms by (intro groupsWellFormed_addReplElement) (simp_all add: groupsWellFormed_def)

lemma groupsWellFormed_updates [simp]:
  "groupsWellFormed (m\<lparr>topReplElementCounter := t\<rparr>) = groupsWellFormed m"
  "groupsWellFormed (m\<lparr>events := ev\<rparr>) = groupsWellFormed m"
  "groupsWellFormed (fire e m) = groupsWellFormed m"
  by (simp_all add: groupsWellFormed_def)

lemma allGroups_replace_last_leaf:
  assumes "replElements m \<noteq> []" "groupNodes (last (replElements m)) = []" "groupNodes y = []"
  shows "allGroups (m\<lparr>replElements := butlast (replElements m) @ [y]\<rparr>) = allGroups m"
proof -
  have "concat (map groupNodes (butlast (replElements m))) @ groupNodes (last (replElements m))
      = concat (map groupNodes (replElements m))"
    using assms(1) by (rule allGroups_last)
  with assms(2,3) show ?thesis by (simp add: allGroups_def)
qed

text \<open>A text is either merged into the last entry, or inserted as a new entry.\<close>

lemma appendToRepl_string_groups:
  "(allGroups (appendToRepl_string m session data sev source) = allGroups m
      \<and> groupCounter (appendToRepl_string m session data sev source) = groupCounter m)
   \<or> appendToRepl_string m session data sev source
       = addReplElement (m\<lparr>topReplElementCounter := topReplElementCounter m + 1\<rparr>)
           (SimpleReplElement session (getUniqueId (topReplElementCounter m)) data sev source 1)"
proof (cases "replElements m = []")
  case True
  then show ?thesis by (simp add: appendToRepl_string_def Let_def)
next
  case False
  show ?thesis
  proof (cases "last (replElements m)")
    case (SimpleReplElement pse pid pvalue psev psrc pcount)
    have keep: "allGroups (m\<lparr>replElements := butlast (replElements m)
                  @ [SimpleReplElement a b c d e f]\<rparr>) = allGroups m" for a b c d e f
      using False SimpleReplElement by (intro allGroups_replace_last_leaf) simp_all
    have keep': "allGroups (m\<lparr>replElements := butlast (replElements m)
                  @ [SimpleReplElement a b c d e f], topReplElementCounter := t\<rparr>) = allGroups m"
      for a b c d e f t
      using keep[of a b c d e f] by (simp add: allGroups_def)
    show ?thesis
      using False SimpleReplElement keep keep'
      by (simp add: appendToRepl_string_def Let_def)
  qed (use False in \<open>simp_all add: appendToRepl_string_def Let_def\<close>)
qed

lemma groupCounter_appendToRepl_string [simp]:
  "groupCounter (appendToRepl_string m session data sev source) = groupCounter m"
  using appendToRepl_string_groups[of m session data sev source] by auto

lemma groupsWellFormed_appendToRepl_string:
  assumes "groupsWellFormed m"
  shows "groupsWellFormed (appendToRepl_string m session data sev source)"
proof -
  from appendToRepl_string_groups[of m session data sev source] show ?thesis
  proof
    assume "allGroups (appendToRepl_string m session data sev source) = allGroups m
      \<and> groupCounter (appendToRepl_string m session data sev source) = groupCounter m"
    with assms show ?thesis by (simp add: groupsWellFormed_def)
  next
    assume "appendToRepl_string m session data sev source
       = addReplElement (m\<lparr>topReplElementCounter := topReplElementCounter m + 1\<rparr>)
           (SimpleReplElement session (getUniqueId (topReplElementCounter m)) data sev source 1)"
    with assms show ?thesis by (simp add: groupsWellFormed_insert_leaf)
  qed
qed

lemma allGroups_appendToRepl_string_origin:
  assumes "x \<in> set (allGroups (appendToRepl_string m session data sev source))"
  shows "x \<in> set (allGroups m)
     \<or> (\<exists>h \<in> set (allGroups m). isOpenGroup h \<and> \<not> hasEnded x \<and> getId h = getId x)"
proof -
  from appendToRepl_string_groups[of m session data sev source] show ?thesis
  proof
    assume "allGroups (appendToRepl_string m session data sev source) = allGroups m
      \<and> groupCounter (appendToRepl_string m session data sev source) = groupCounter m"
    with assms show ?thesis by simp
  next
    assume "appendToRepl_string m session data sev source
       = addReplElement (m\<lparr>topReplElementCounter := topReplElementCounter m + 1\<rparr>)
           (SimpleReplElement session (getUniqueId (topReplElementCounter m)) data sev source 1)"
    with assms allGroups_addReplElement_origin[of x "m\<lparr>topReplElementCounter := topReplElementCounter m + 1\<rparr>"
        "SimpleReplElement session (getUniqueId (topReplElementCounter m)) data sev source 1"]
    show ?thesis by simp
  qed
qed

lemma allGroups_removeReplExpressions [simp]: "allGroups (removeReplExpressions m) = []"
  by (simp add: allGroups_def)

lemma groupsWellFormed_removeReplExpressions: "groupsWellFormed (removeReplExpressions m)"
  by (simp add: groupsWellFormed_def)

lemma allGroups_appendToRepl_string_none:
  assumes "allGroups m = []"
  shows "allGroups (appendToRepl_string m session data sev source) = []"
proof -
  have "x \<notin> set (allGroups (appendToRepl_string m session data sev source))" for x
    using allGroups_appendToRepl_string_origin[of x m session data sev source] assms by auto
  then show ?thesis
    by (cases "allGroups (appendToRepl_string m session data sev source)") auto
qed

lemma groupCounter_appendToRepl [simp]:
  "groupCounter (appendToRepl m session data sev source) = groupCounter m"
proof (cases data)
  case (Text str)
  show ?thesis
  proof (cases "0 \<le> indexOf str clearAnsiSequence")
    case True
    then show ?thesis unfolding Text by (simp only: appendToRepl_clear) simp
  next
    case False
    then have "indexOf str clearAnsiSequence < 0" by simp
    then show ?thesis unfolding Text by (simp only: appendToRepl_plain) simp
  qed
next
  case (Expression i n v src ann)
  then show ?thesis by (simp add: appendToRepl_expression)
qed

lemma groupsWellFormed_appendToRepl:
  assumes "groupsWellFormed m"
  shows "groupsWellFormed (appendToRepl m session data sev source)"
proof (cases data)
  case (Text str)
  show ?thesis
  proof (cases "0 \<le> indexOf str clearAnsiSequence")
    case True
    then show ?thesis
      unfolding Text
      by (simp only: appendToRepl_clear groupsWellFormed_appendToRepl_string
          groupsWellFormed_removeReplExpressions)
  next
    case False
    then have "indexOf str clearAnsiSequence < 0" by simp
    then show ?thesis
      unfolding Text
      by (simp only: appendToRepl_plain groupsWellFormed_appendToRepl_string[OF assms])
  qed
next
  case (Expression i n v src ann)
  then show ?thesis
    using assms by (simp add: appendToRepl_expression groupsWellFormed_insert_leaf)
qed

lemma allGroups_appendToRepl_origin:
  assumes "x \<in> set (allGroups (appendToRepl m session data sev source))"
  shows "x \<in> set (allGroups m)
     \<or> (\<exists>h \<in> set (allGroups m). isOpenGroup h \<and> \<not> hasEnded x \<and> getId h = getId x)"
proof (cases data)
  case (Text str)
  show ?thesis
  proof (cases "0 \<le> indexOf str clearAnsiSequence")
    case True
    have "allGroups (appendToRepl m session (Text str) sev source) = []"
      by (simp only: appendToRepl_clear[OF True] allGroups_appendToRepl_string_none
          allGroups_removeReplExpressions)
    with assms show ?thesis unfolding Text by simp
  next
    case False
    then have "indexOf str clearAnsiSequence < 0" by simp
    then have "appendToRepl m session data sev source = appendToRepl_string m session str sev source"
      unfolding Text by (rule appendToRepl_plain)
    with assms show ?thesis
      by (simp only: allGroups_appendToRepl_string_origin)
  qed
next
  case (Expression i n v src ann)
  with assms allGroups_addReplElement_origin[of x m "RawObjectReplElement i n v source ann (Some sev)"]
  show ?thesis by (simp add: appendToRepl_expression)
qed

lemma groupsWellFormed_next_group:
  assumes "groupsWellFormed m"
  shows "groupsWellFormed (m\<lparr>groupCounter := groupCounter m + 1\<rparr>)"
  using assms by (auto simp add: groupsWellFormed_def list_all_iff)

lemma fresh_group_id:
  assumes "groupsWellFormed m"
  shows "replGroupId (groupCounter m) \<notin> getId ` set (allGroups m)"
proof
  assume "replGroupId (groupCounter m) \<in> getId ` set (allGroups m)"
  then obtain g where g: "g \<in> set (allGroups m)" "getId g = replGroupId (groupCounter m)"
    by auto
  from g(1) assms obtain k where "k < groupCounter m" "getId g = replGroupId k"
    by (auto simp add: groupsWellFormed_def list_all_iff)
  with g(2) show False by (auto dest: replGroupId_inj)
qed

lemma groupsWellFormed_startGroup:
  assumes "groupsWellFormed m"
  shows "groupsWellFormed (startGroup m name autoExpand source)"
  unfolding startGroup_def Let_def
proof (rule groupsWellFormed_addReplElement)
  show "groupsWellFormed (m\<lparr>groupCounter := groupCounter m + 1\<rparr>)"
    using assms by (rule groupsWellFormed_next_group)
  show "list_all closedSettled
     (groupNodes (ReplGroup (replGroupId (groupCounter m)) name autoExpand source [] False))"
    by simp
  show "list_all (\<lambda>g. getId g \<in> replGroupId ` {..<groupCounter (m\<lparr>groupCounter := groupCounter m + 1\<rparr>)})
     (groupNodes (ReplGroup (replGroupId (groupCounter m)) name autoExpand source [] False))"
    by simp
  show "distinct (map getId (allGroups (m\<lparr>groupCounter := groupCounter m + 1\<rparr>))
     @ map getId (groupNodes (ReplGroup (replGroupId (groupCounter m)) name autoExpand source [] False)))"
    using assms fresh_group_id[OF assms] by (simp add: groupsWellFormed_def)
qed

lemma allGroups_startGroup_origin:
  assumes "x \<in> set (allGroups (startGroup m name autoExpand source))"
  shows "x \<in> set (allGroups m)
     \<or> (\<exists>h \<in> set (allGroups m). isOpenGroup h \<and> \<not> hasEnded x \<and> getId h = getId x)
     \<or> getId x = replGroupId (groupCounter m)"
  using assms
    allGroups_addReplElement_origin[of x "m\<lparr>groupCounter := groupCounter m + 1\<rparr>"
      "ReplGroup (replGroupId (groupCounter m)) name autoExpand source [] False"]
  by (auto simp add: startGroup_def Let_def)

lemma endGroup_cases:
  "endGroup m = m
   \<or> (replElements m \<noteq> [] \<and> isGroup (last (replElements m))
       \<and> endGroup m = m\<lparr>replElements := butlast (replElements m)
              @ [ReplGroup_end (last (replElements m))]\<rparr>)"
  by (simp add: endGroup_def Let_def)

lemma groupsWellFormed_endGroup:
  assumes "groupsWellFormed m"
  shows "groupsWellFormed (endGroup m)"
proof -
  from endGroup_cases[of m] show ?thesis
  proof
    assume "endGroup m = m"
    with assms show ?thesis by simp
  next
    assume a: "replElements m \<noteq> [] \<and> isGroup (last (replElements m))
       \<and> endGroup m = m\<lparr>replElements := butlast (replElements m)
              @ [ReplGroup_end (last (replElements m))]\<rparr>"
    let ?es = "replElements m"
    have split: "allGroups m = concat (map groupNodes (butlast ?es)) @ groupNodes (last ?es)"
      using a by (simp add: allGroups_def allGroups_last)
    have new: "allGroups (endGroup m)
        = concat (map groupNodes (butlast ?es)) @ groupNodes (ReplGroup_end (last ?es))"
      using a by (simp add: allGroups_def)
    have gc: "groupCounter (endGroup m) = groupCounter m"
      using a by simp
    have ids: "map getId (allGroups (endGroup m)) = map getId (allGroups m)"
      unfolding new split by (simp add: groupNodes_end_ids)
    have settled: "list_all closedSettled (allGroups (endGroup m))"
    proof -
      from assms have "list_all closedSettled (groupNodes (last ?es))"
        "list_all closedSettled (concat (map groupNodes (butlast ?es)))"
        unfolding groupsWellFormed_def split by simp_all
      then show ?thesis
        unfolding new by (simp add: closedSettled_end)
    qed
    have below: "list_all (\<lambda>g. getId g \<in> replGroupId ` {..<groupCounter m}) (allGroups (endGroup m))"
    proof -
      from assms have "\<forall>i \<in> set (map getId (allGroups m)). i \<in> replGroupId ` {..<groupCounter m}"
        by (simp add: groupsWellFormed_def list_all_iff)
      then have "\<forall>i \<in> set (map getId (allGroups (endGroup m))). i \<in> replGroupId ` {..<groupCounter m}"
        unfolding ids .
      then show ?thesis by (simp add: list_all_iff)
    qed
    from assms have "distinct (map getId (allGroups m))" by (simp add: groupsWellFormed_def)
    then have "distinct (map getId (allGroups (endGroup m)))" unfolding ids .
    with settled below gc show ?thesis by (simp add: groupsWellFormed_def)
  qed
qed

lemma allGroups_endGroup_origin:
  assumes "groupsWellFormed m" "x \<in> set (allGroups (endGroup m))"
  shows "x \<in> set (allGroups m)
     \<or> (\<exists>h \<in> set (allGroups m). isOpenGroup h \<and> getId h = getId x)"
proof -
  from endGroup_cases[of m] show ?thesis
  proof
    assume "endGroup m = m"
    with assms(2) show ?thesis by simp
  next
    assume a: "replElements m \<noteq> [] \<and> isGroup (last (replElements m))
       \<and> endGroup m = m\<lparr>replElements := butlast (replElements m)
              @ [ReplGroup_end (last (replElements m))]\<rparr>"
    let ?es = "replElements m"
    let ?g = "last ?es"
    have split: "allGroups m = concat (map groupNodes (butlast ?es)) @ groupNodes ?g"
      using a by (simp add: allGroups_def allGroups_last)
    have new: "allGroups (endGroup m)
        = concat (map groupNodes (butlast ?es)) @ groupNodes (ReplGroup_end ?g)"
      using a by (simp add: allGroups_def)
    have "?g \<in> set (allGroups m)"
      unfolding split using a by (simp add: groupNodes_self)
    with assms(1) have settled: "closedSettled ?g"
      by (simp add: groupsWellFormed_def list_all_iff)
    from assms(2) consider "x \<in> set (concat (map groupNodes (butlast ?es)))"
      | "x \<in> set (groupNodes (ReplGroup_end ?g))"
      unfolding new by auto
    then show ?thesis
    proof cases
      case 1
      then show ?thesis unfolding split by simp
    next
      case 2
      have "\<not> (hasEnded ?g \<and> getChildren ?g \<noteq> [] \<and> isOpenGroup (last (getChildren ?g)))"
        using settled by (cases ?g) auto
      with groupNodes_end_origin[OF 2]
      have "x \<in> set (groupNodes ?g) \<or> (\<exists>h \<in> set (groupNodes ?g). isOpenGroup h \<and> getId h = getId x)"
        by blast
      then show ?thesis unfolding split by auto
    qed
  qed
qed

lemma groupsWellFormed_exec:
  assumes "groupsWellFormed m"
  shows "groupsWellFormed (exec m op)"
proof (cases op)
  case (AddReplExpressionResume uuid ev)
  show ?thesis
    unfolding AddReplExpressionResume using assms
    by (cases ev) (simp add: addReplExpression_resume_eq groupsWellFormed_insert_leaf)
qed (use assms in \<open>simp_all add: groupsWellFormed_appendToRepl groupsWellFormed_startGroup
      groupsWellFormed_endGroup groupsWellFormed_removeReplExpressions
      groupsWellFormed_insert_leaf addReplExpression_begin_def\<close>)

lemma groupsWellFormed_run: "groupsWellFormed m \<Longrightarrow> groupsWellFormed (run m ops)"
  unfolding run_def by (induction ops arbitrary: m) (simp_all add: groupsWellFormed_exec)

lemma groupsWellFormed_new: "groupsWellFormed (newReplModel collapse tc gc)"
  by (simp add: groupsWellFormed_def allGroups_def)

lemma allGroups_exec_origin:
  assumes "groupsWellFormed m" "x \<in> set (allGroups (exec m op))"
  shows "x \<in> set (allGroups m)
     \<or> (\<exists>h \<in> set (allGroups m). isOpenGroup h \<and> getId h = getId x)
     \<or> getId x = replGroupId (groupCounter m)"
proof (cases op)
  case (AppendToRepl session data sev source)
  with assms(2) allGroups_appendToRepl_origin[of x m session data sev source]
  show ?thesis by auto
next
  case (StartGroup name autoExpand source)
  with assms(2) allGroups_startGroup_origin[of x m name autoExpand source]
  show ?thesis by auto
next
  case EndGroup
  with assms allGroups_endGroup_origin[of m x] show ?thesis by auto
next
  case (AddReplExpressionBegin name uuid)
  with assms(2) allGroups_addReplElement_origin[of x m "ReplEvaluationInput uuid name"]
  show ?thesis by (auto simp add: addReplExpression_begin_def)
next
  case (AddReplExpressionResume uuid ev)
  obtain ok val where ev: "ev = Evaluation ok val" by (cases ev)
  with AddReplExpressionResume assms(2)
    allGroups_addReplElement_origin[of x m "ReplEvaluationResult uuid ok val"]
  show ?thesis by (auto simp add: addReplExpression_resume_eq)
next
  case RemoveReplExpressions
  with assms(2) show ?thesis by simp
qed

text \<open>A closed group is the same in the next state, if it is there at all.\<close>

lemma closed_group_kept:
  assumes wf: "groupsWellFormed m"
    and g: "g \<in> set (allGroups m)" "hasEnded g"
    and x: "x \<in> set (allGroups (exec m op))" "getId x = getId g"
  shows "x = g"
proof -
  have inj: "inj_on getId (set (allGroups m))"
    using wf by (simp add: groupsWellFormed_def distinct_map)
  from allGroups_exec_origin[OF wf x(1)] consider
      "x \<in> set (allGroups m)"
    | h where "h \<in> set (allGroups m)" "isOpenGroup h" "getId h = getId x"
    | "getId x = replGroupId (groupCounter m)"
    by blast
  then show ?thesis
  proof cases
    case 1
    with inj g(1) x(2) show ?thesis by (auto dest: inj_onD)
  next
    case 2
    with inj g(1) x(2) have "h = g" by (auto dest: inj_onD)
    with 2(2) g(2) show ?thesis by (simp add: isOpenGroup_not_ended)
  next
    case 3
    with x(2) have "replGroupId (groupCounter m) \<in> getId ` set (allGroups m)"
      using g(1) by (metis imageI)
    with fresh_group_id[OF wf] show ?thesis by blast
  qed
qed

lemma run_snoc: "run m (ops @ [op]) = exec (run m ops) op"
  by (simp add: run_def)

lemma run_append: "run (run m ops) ops' = run m (ops @ ops')"
  by (simp add: run_def)

lemma groupCounter_exec: "groupCounter m \<le> groupCounter (exec m op)"
proof (cases op)
  case (AddReplExpressionResume uuid ev)
  then show ?thesis by (cases ev) (simp add: addReplExpression_resume_eq)
qed (simp_all add: startGroup_def endGroup_def Let_def addReplExpression_begin_def)

lemma groupCounter_run: "groupCounter m \<le> groupCounter (run m ops)"
proof (induction ops rule: rev_induct)
  case Nil
  then show ?case by (simp add: run_def)
next
  case (snoc op ops)
  with groupCounter_exec[of "run m ops" op] show ?case by (simp add: run_snoc)
qed

lemma closed_group_frozen:
  assumes wf: "groupsWellFormed m"
    and g: "g \<in> set (allGroups m)" "hasEnded g"
  shows "x \<in> set (allGroups (run m ops)) \<Longrightarrow> getId x = getId g \<Longrightarrow> x = g"
proof (induction ops arbitrary: x rule: rev_induct)
  case Nil
  have "inj_on getId (set (allGroups m))"
    using wf by (simp add: groupsWellFormed_def distinct_map)
  with Nil g(1) show ?case by (auto simp add: run_def dest: inj_onD)
next
  case (snoc op ops)
  let ?m' = "run m ops"
  have wf': "groupsWellFormed ?m'" using wf by (rule groupsWellFormed_run)
  from snoc.prems(1) have x: "x \<in> set (allGroups (exec ?m' op))" by (simp add: run_snoc)
  from allGroups_exec_origin[OF wf' x] consider
      "x \<in> set (allGroups ?m')"
    | h where "h \<in> set (allGroups ?m')" "isOpenGroup h" "getId h = getId x"
    | "getId x = replGroupId (groupCounter ?m')"
    by blast
  then show ?case
  proof cases
    case 1
    with snoc.IH snoc.prems(2) show ?thesis by blast
  next
    case 2
    with snoc.IH[of h] snoc.prems(2) have "h = g" by simp
    with 2(2) g(2) show ?thesis by (simp add: isOpenGroup_not_ended)
  next
    case 3
    from g(1) wf obtain k where k: "k < groupCounter m" "getId g = replGroupId k"
      by (auto simp add: groupsWellFormed_def list_all_iff)
    from 3 snoc.prems(2) k(2) have "groupCounter ?m' = k"
      by (auto dest: replGroupId_inj)
    with k(1) groupCounter_run[of m ops] show ?thesis by simp
  qed
qed

text \<open>
  Claim C8. Take a store reached from a new one through the public operations
  (appendToRepl, startGroup, endGroup, the two halves of addReplExpression and
  removeReplExpressions; inserts happen inside these), and a group in it that is closed.
  Whatever operations follow, a group with that identity, if the log still holds one, is
  that very group: it has the same children and is still closed. Identities name groups:
  no other group of the store has this one. Hence one operation changes the children of
  a group only if the group was open before. Calling end on the closed group returns it
  unchanged, and endGroup leaves the store as it is when the group is the last entry.
\<close>

theorem closed_groups_stay_closed:
  assumes "m = run (newReplModel collapse tc gc) ops"
    and "g \<in> set (allGroups m)"
    and "hasEnded g"
  shows "(\<forall>later. \<forall>x \<in> set (allGroups (run m later)). getId x = getId g \<longrightarrow> x = g)
       \<and> (\<forall>h \<in> set (allGroups m). getId h = getId g \<longrightarrow> h = g)
       \<and> (\<forall>op. \<forall>h \<in> set (allGroups m). \<forall>x \<in> set (allGroups (exec m op)).
             getId x = getId h \<and> getChildren x \<noteq> getChildren h \<longrightarrow> \<not> hasEnded h)
       \<and> ReplGroup_end g = g
       \<and> (last (replElements m) = g \<longrightarrow> endGroup m = m)"
proof -
  have wf: "groupsWellFormed m"
    unfolding assms(1) by (intro groupsWellFormed_run groupsWellFormed_new)
  have frozen: "\<forall>later. \<forall>x \<in> set (allGroups (run m later)). getId x = getId g \<longrightarrow> x = g"
    using closed_group_frozen[OF wf assms(2,3)] by blast
  have "inj_on getId (set (allGroups m))"
    using wf by (simp add: groupsWellFormed_def distinct_map)
  with assms(2) have unique: "\<forall>h \<in> set (allGroups m). getId h = getId g \<longrightarrow> h = g"
    by (auto dest: inj_onD)
  have "closedSettled g"
    using wf assms(2) by (simp add: groupsWellFormed_def list_all_iff)
  with assms(3) have idem: "ReplGroup_end g = g" by (rule ReplGroup_end_settled)
  have top: "endGroup m = m" if "last (replElements m) = g"
  proof (cases "replElements m = []")
    case True
    then show ?thesis by (simp add: endGroup_def)
  next
    case False
    have "butlast (replElements m) @ [g] = replElements m"
      using False that by (metis append_butlast_last_id)
    with False that idem show ?thesis
      by (simp add: endGroup_def Let_def)
  qed
  have grow: "\<forall>op. \<forall>h \<in> set (allGroups m). \<forall>x \<in> set (allGroups (exec m op)).
             getId x = getId h \<and> getChildren x \<noteq> getChildren h \<longrightarrow> \<not> hasEnded h"
    using closed_group_kept[OF wf] by blast
  from frozen unique grow idem top show ?thesis by blast
qed

theorem closed_groups_stay_closed_witness:
  "replElements (run (newReplModel True 0 0) [StartGroup ''A'' False None, EndGroup])
     = [ReplGroup ''replGroup:0'' ''A'' False None [] True]
   \<and> ReplGroup ''replGroup:0'' ''A'' False None [] True
       \<in> set (allGroups (run (newReplModel True 0 0) [StartGroup ''A'' False None, EndGroup]))
   \<and> hasEnded (ReplGroup ''replGroup:0'' ''A'' False None [] True)
   \<and> ReplGroup_end (ReplGroup ''replGroup:0'' ''A'' False None [] True)
       = ReplGroup ''replGroup:0'' ''A'' False None [] True
   \<and> endGroup (run (newReplModel True 0 0) [StartGroup ''A'' False None, EndGroup])
       = run (newReplModel True 0 0) [StartGroup ''A'' False None, EndGroup]
   \<and> replElements
        (run (run (newReplModel True 0 0) [StartGroup ''A'' False None, EndGroup])
           [EndGroup, AddReplExpressionBegin ''1+1'' ''u'', EndGroup])
       = [ReplGroup ''replGroup:0'' ''A'' False None [] True, ReplEvaluationInput ''u'' ''1+1'']"
proof -
  let ?m = "run (newReplModel True 0 0) [StartGroup ''A'' False None, EndGroup]"
  let ?g = "ReplGroup ''replGroup:0'' ''A'' False None [] True"
  have a: "?m = run (newReplModel True 0 0) [StartGroup ''A'' False None, EndGroup]" by simp
  have r: "replElements ?m = [?g]"
    by (simp add: run_def startGroup_def endGroup_def addReplElement_def Let_def
        MAX_REPL_LENGTH_def replGroupId_def showNat.simps digitChar_def)
  then have b: "?g \<in> set (allGroups ?m)" by (simp add: allGroups_def)
  have c: "hasEnded ?g" by simp
  note t = closed_groups_stay_closed[OF a b c]
  from r have l: "last (replElements ?m) = ?g" by simp
  from t have d: "ReplGroup_end ?g = ?g" by blast
  from t l have e: "endGroup ?m = ?m" by blast
  have f: "replElements (run ?m [EndGroup, AddReplExpressionBegin ''1+1'' ''u'', EndGroup])
       = [?g, ReplEvaluationInput ''u'' ''1+1'']"
    by (simp add: run_def startGroup_def endGroup_def addReplElement_def Let_def
        MAX_REPL_LENGTH_def replGroupId_def showNat.simps digitChar_def addReplExpression_begin_def)
  from r b c d e f show ?thesis by blast
qed

end
